theory Spec2Isabelle
  imports Main "HOL-Library.Word" "HOL-Library.FSet" "HOL-Library.AList" "HOL-Library.Multiset"
begin

unbundle bit_operations_syntax

section \<open>Strings\<close>

text \<open>
  A JavaScript string is a sequence of UTF-16 code units. Message content, nicknames and
  prefixes are modelled as lists of 16-bit words, so that the full-width comma U+FF0C of
  the separator pattern is one unit, as it is for \<^verbatim>\<open>startsWith\<close>, \<^verbatim>\<open>slice\<close> and \<^verbatim>\<open>length\<close>.
  Identifiers (session ids, user ids, cache keys), which the code only compares, are
  modelled as \<^typ>\<open>string\<close>.
\<close>

type_synonym jsstring = "16 word list"

definition ascii :: "string \<Rightarrow> jsstring" where
  "ascii s = map (\<lambda>c. of_nat (of_char c)) s"

text \<open>The characters matched by \<^verbatim>\<open>\s\<close> in a regular expression and removed by \<^verbatim>\<open>trim\<close>:
  white space and line terminators of ECMAScript.\<close>

definition is_space :: "16 word \<Rightarrow> bool" where
  "is_space c \<longleftrightarrow>
     c = 0x09 \<or> c = 0x0A \<or> c = 0x0B \<or> c = 0x0C \<or> c = 0x0D \<or> c = 0x20 \<or> c = 0xA0 \<or>
     c = 0x1680 \<or> (0x2000 \<le> c \<and> c \<le> 0x200A) \<or> c = 0x2028 \<or> c = 0x2029 \<or>
     c = 0x202F \<or> c = 0x205F \<or> c = 0x3000 \<or> c = 0xFEFF"

definition trimStart :: "jsstring \<Rightarrow> jsstring" where
  "trimStart s = dropWhile is_space s"

definition trim :: "jsstring \<Rightarrow> jsstring" where
  "trim s = rev (dropWhile is_space (rev (dropWhile is_space s)))"

definition startsWith :: "jsstring \<Rightarrow> jsstring \<Rightarrow> bool" where
  "startsWith s p \<longleftrightarrow> take (length p) s = p"

definition slice :: "jsstring \<Rightarrow> nat \<Rightarrow> jsstring" where
  "slice s n = drop n s"

text \<open>\<^verbatim>\<open>/^([, U+FF0C]\s*|\s+)/.exec(rest)\<close>: the matched text \<^verbatim>\<open>capture[0]\<close>, or nothing.
  Both alternatives are greedy and nothing follows them in the pattern, so the match is
  the comma (U+002C or U+FF0C) with every space after it, or every leading space.\<close>

definition separator :: "jsstring \<Rightarrow> jsstring option" where
  "separator rest =
     (case rest of
        [] \<Rightarrow> None
      | c # cs \<Rightarrow>
          if c = 0x2C \<or> c = 0xFF0C then Some (c # takeWhile is_space cs)
          else if is_space c then Some (takeWhile is_space rest)
          else None)"

section \<open>SharedCache\<close>

text \<open>
  \<^verbatim>\<open>SharedCache.Entry<T>\<close> is \<^verbatim>\<open>{ value, key, refs: Set<string> }\<close>; the key map is an
  object without prototype, modelled as an association list in insertion order.
\<close>

record 'v entry =
  entry_value :: 'v
  entry_key :: string
  refs :: "string fset"

type_synonym 'v keyMap = "(string \<times> 'v entry) list"

definition refs_add :: "string \<Rightarrow> 'v entry \<Rightarrow> 'v entry" where
  "refs_add ref e = e\<lparr>refs := finsert ref (refs e)\<rparr>"

text \<open>\<^verbatim>\<open>get(ref, key)\<close>: the absent sentinel \<^verbatim>\<open>undefined\<close> is \<open>None\<close>; a hit adds the referrer.\<close>

definition SharedCache_get :: "string \<Rightarrow> string \<Rightarrow> 'v keyMap \<Rightarrow> 'v keyMap \<times> 'v option" where
  "SharedCache_get ref k m =
     (case map_of m k of
        None \<Rightarrow> (m, None)
      | Some e \<Rightarrow> (AList.update k (refs_add ref e) m, Some (entry_value e)))"

definition SharedCache_set :: "string \<Rightarrow> string \<Rightarrow> 'v \<Rightarrow> 'v keyMap \<Rightarrow> 'v keyMap" where
  "SharedCache_set ref k v m =
     (let e = (case map_of m k of
                 Some e \<Rightarrow> e\<lparr>entry_value := v\<rparr>
               | None \<Rightarrow> \<lparr>entry_value = v, entry_key = k, refs = {||}\<rparr>)
      in AList.update k (refs_add ref e) m)"

text \<open>One round of the \<^verbatim>\<open>for (const key in this.#keyMap)\<close> loop of \<^verbatim>\<open>delete(ref)\<close>.\<close>

definition delete_step :: "string \<Rightarrow> string \<Rightarrow> 'v keyMap \<Rightarrow> 'v keyMap" where
  "delete_step ref k m =
     (case map_of m k of
        None \<Rightarrow> m
      | Some e \<Rightarrow>
          let refs' = refs e |-| {|ref|};
              m' = AList.update k (e\<lparr>refs := refs'\<rparr>) m
          in if fcard refs' = 0 then AList.delete k m' else m')"

definition SharedCache_delete :: "string \<Rightarrow> 'v keyMap \<Rightarrow> 'v keyMap" where
  "SharedCache_delete ref m = fold (delete_step ref) (map fst m) m"

text \<open>A sequence of operations on one cache, by any referrers.\<close>

datatype 'v cache_op = Get string string | Set string string 'v | Delete string

fun apply_op :: "'v cache_op \<Rightarrow> 'v keyMap \<Rightarrow> 'v keyMap" where
  "apply_op (Get ref k) m = fst (SharedCache_get ref k m)"
| "apply_op (Set ref k v) m = SharedCache_set ref k v m"
| "apply_op (Delete ref) m = SharedCache_delete ref m"

definition apply_ops :: "'v cache_op list \<Rightarrow> 'v keyMap \<Rightarrow> 'v keyMap" where
  "apply_ops ops m = fold apply_op ops m"

text \<open>An operation touches a key when it is a \<^verbatim>\<open>get\<close> or a \<^verbatim>\<open>set\<close> of that key.\<close>

fun touches :: "string \<Rightarrow> 'v cache_op \<Rightarrow> string option" where
  "touches k (Get ref k') = (if k' = k then Some ref else None)"
| "touches k (Set ref k' v) = (if k' = k then Some ref else None)"
| "touches k (Delete ref) = None"


section \<open>Sessions, records and collaborators\<close>

text \<open>A message element: its type, and the attributes \<^verbatim>\<open>id\<close> and \<^verbatim>\<open>content\<close> the code reads.\<close>

record element =
  etype :: string
  attrs_id :: "string option"
  attrs_content :: jsstring

text \<open>The stored result of parsing, \<^verbatim>\<open>{ content, appel, prefix }\<close>; \<^verbatim>\<open>null\<close> is \<open>None\<close>.\<close>

record parsed =
  parsed_content :: jsstring
  appel :: bool
  prefix :: "jsstring option"

text \<open>Observed records, with the fields the dispatch code reads or writes. The flag is a
  bit mask, tested with the 32-bit \<^verbatim>\<open>&\<close> of JavaScript.\<close>

record channel =
  channel_flag :: "32 word"
  channel_assignee :: string
  channel_guildId :: string

record user =
  user_flag :: "32 word"
  user_authority :: nat

record session =
  session_id :: string
  content :: jsstring
  elements :: "element list option"
  selfId :: string
  userId :: string
  channelId :: string
  guildId :: string
  subtype :: string
  parsed :: "parsed option"
  user :: "user option"
  channel :: "channel option"
  guild :: "channel option"

text \<open>\<^verbatim>\<open>SessionError\<close> carries a path and parameters; any other \<^verbatim>\<open>Error\<close> carries a message.\<close>

datatype error =
    SessionError "string list" "(string \<times> string) list"
  | Error string

text \<open>The value of \<^verbatim>\<open>session.resolveValue(this.config.prefix)\<close>.\<close>

datatype prefix_value = PUndefined | PString jsstring | PArray "jsstring list"

text \<open>
  The configuration and the collaborators that are not part of the dispatch code: the
  element library (\<^verbatim>\<open>segment.parse\<close>, \<^verbatim>\<open>segment.escape\<close>, the string form of an element), the
  persistence layer, the listeners of the event bus, localisation and the transport.
  \<open>nickname\<close> is \<^verbatim>\<open>makeArray(this.config.nickname)\<close>. A collaborator that can fail returns
  the error it throws.
\<close>

record env =
  nickname :: "jsstring list"
  resolved_prefix :: prefix_value
  segment_parse :: "jsstring \<Rightarrow> element list"
  segment_escape :: "jsstring \<Rightarrow> jsstring"
  element_toString :: "element \<Rightarrow> jsstring"
  database :: bool
  Channel_Flag_ignore :: "32 word"
  User_Flag_ignore :: "32 word"
  before_attach_channel :: "string list \<Rightarrow> string list"
  before_attach_user :: "string list \<Rightarrow> string list"
  getChannel :: "string \<Rightarrow> string list \<Rightarrow> error + channel"
  getUser :: "string \<Rightarrow> string list \<Rightarrow> error + user"
  serial_attach_channel :: "error + bool"
  serial_attach_user :: "error + bool"
  session_text :: "string list \<Rightarrow> (string \<times> string) list \<Rightarrow> jsstring"
  session_send :: "jsstring \<Rightarrow> error option"
  update_user :: "error option"
  update_channel :: "error option"
  update_guild :: "error option"

section \<open>Resolving mentions, nickname and prefix\<close>

text \<open>\<^verbatim>\<open>_resolvePrefixes\<close>: an array is taken as it is, anything else becomes the one-element
  array \<^verbatim>\<open>[value || '']\<close>; every source is escaped.\<close>

definition resolvePrefixes :: "env \<Rightarrow> jsstring list" where
  "resolvePrefixes env =
     (let result = (case resolved_prefix env of
                      PArray v \<Rightarrow> v
                    | PString v \<Rightarrow> [if v \<noteq> [] then v else []]
                    | PUndefined \<Rightarrow> [[]])
      in map (segment_escape env) result)"

text \<open>The loop of \<^verbatim>\<open>_stripNickname\<close> over the configured nicknames.\<close>

fun stripNickname_loop :: "jsstring list \<Rightarrow> jsstring \<Rightarrow> jsstring option" where
  "stripNickname_loop [] cnt = None"
| "stripNickname_loop (nick # nicks) cnt =
     (if \<not> startsWith cnt nick then stripNickname_loop nicks cnt
      else let rest = slice cnt (length nick) in
        case separator rest of
          None \<Rightarrow> stripNickname_loop nicks cnt
        | Some capture \<Rightarrow> Some (slice rest (length capture)))"

definition stripNickname :: "env \<Rightarrow> jsstring \<Rightarrow> jsstring option" where
  "stripNickname env cnt =
     (let cnt = (if startsWith cnt (ascii ''@'') then slice cnt 1 else cnt)
      in stripNickname_loop (nickname env) cnt)"

text \<open>The \<^verbatim>\<open>while (elements[0]?.type === 'at')\<close> loop; the state is the remaining elements and
  \<open>(content, atSelf, appel, hasMention)\<close>.\<close>

function strip_mentions ::
  "env \<Rightarrow> string \<Rightarrow> element list \<Rightarrow> jsstring \<times> bool \<times> bool \<times> bool
     \<Rightarrow> jsstring \<times> bool \<times> bool \<times> bool" where
  "strip_mentions env self [] acc = acc"
| "strip_mentions env self (e # es) (cnt, atSelf, app, hasMention) =
     (if etype e = ''at'' then
        let at_me = (attrs_id e = Some self);
            cnt' = trimStart (concat (map (element_toString env) es))
        in strip_mentions env self
             (case es of
                [] \<Rightarrow> []
              | t # ts \<Rightarrow> if etype t = ''text'' \<and> trim (attrs_content t) = [] then ts else es)
             (cnt', atSelf \<or> at_me, app \<or> at_me, True)
      else (cnt, atSelf, app, hasMention))"
  by pat_completeness auto
termination
  by (relation "measure (\<lambda>(env, self, es, acc). length es)") (auto split: list.splits)

text \<open>The nickname step of \<^verbatim>\<open>_process\<close>: the result of \<^verbatim>\<open>_stripNickname\<close> is used when it is
  truthy, that is, a non-empty string.\<close>

definition strip_nickname_step :: "env \<Rightarrow> jsstring \<times> bool \<Rightarrow> jsstring \<times> bool" where
  "strip_nickname_step env = (\<lambda>(cnt, app).
     case stripNickname env cnt of
       None \<Rightarrow> (cnt, app)
     | Some result \<Rightarrow> if result \<noteq> [] then (result, True) else (cnt, app))"

text \<open>The prefix loop of \<^verbatim>\<open>_process\<close>: one round, and the loop over the resolved prefixes.\<close>

definition strip_prefix_step ::
  "jsstring \<Rightarrow> jsstring \<times> jsstring option \<Rightarrow> jsstring \<times> jsstring option" where
  "strip_prefix_step p = (\<lambda>(cnt, pfx).
     if \<not> startsWith cnt p then (cnt, pfx)
     else (slice cnt (length p), Some p))"

definition strip_prefixes ::
  "jsstring list \<Rightarrow> jsstring \<times> jsstring option \<Rightarrow> jsstring \<times> jsstring option" where
  "strip_prefixes ps acc = fold strip_prefix_step ps acc"

text \<open>The first part of \<^verbatim>\<open>_process\<close>, up to the stored \<^verbatim>\<open>parsed\<close> value. The result also
  carries \<open>atSelf\<close>, which the channel gate reads.\<close>

definition parse_message :: "env \<Rightarrow> session \<Rightarrow> element list \<Rightarrow> parsed \<times> bool" where
  "parse_message env s els =
     (let (cnt, atSelf, app, hasMention) =
            strip_mentions env (selfId s) els (trim (content s), False, False, False)
      in if \<not> hasMention \<or> atSelf then
           let (cnt, app) = strip_nickname_step env (cnt, app);
               (cnt, pfx) = strip_prefixes (resolvePrefixes env) (cnt, None)
           in (\<lparr>parsed_content = cnt, appel = app, prefix = pfx\<rparr>, atSelf)
         else (\<lparr>parsed_content = cnt, appel = app, prefix = None\<rparr>, atSelf))"


section \<open>The attach pipeline\<close>

text \<open>What the dispatch does that can be seen from outside, in the order it happens.\<close>

datatype event =
    EvInvoke nat
  | EvWarn jsstring error
  | EvText "string list" "(string \<times> string) list"
  | EvEmit string
  | EvSend jsstring
  | EvUnregister string
  | EvReleaseUser string
  | EvReleaseChannel string
  | EvUpdate string

text \<open>The state of \<^verbatim>\<open>Internal\<close> that a dispatch reads and writes: \<^verbatim>\<open>_sessions\<close>, \<^verbatim>\<open>_userCache\<close>
  and \<^verbatim>\<open>_channelCache\<close>. The caches hold observed records; the model keeps them as values,
  so a record changed through the session is seen through the session only.\<close>

record world =
  sessions :: "string \<rightharpoonup> session"
  userCache :: "user keyMap"
  channelCache :: "channel keyMap"

text \<open>Modelled from the spec: \<^verbatim>\<open>session.observeChannel\<close> and \<^verbatim>\<open>session.observeUser\<close> are not in
  the sources. The record is loaded or returned from the cache, through the cache keyed by
  the channel (user) identity with the session id as referrer; on an absent lookup the
  caller loads the record and sets it. The record is attached to the session.\<close>

definition observeChannel ::
  "env \<Rightarrow> string list \<Rightarrow> session \<times> world \<Rightarrow> (session \<times> world) \<times> (error + channel)" where
  "observeChannel env fs = (\<lambda>(s, w).
     case SharedCache_get (session_id s) (channelId s) (channelCache w) of
       (cache, Some ch) \<Rightarrow> ((s\<lparr>channel := Some ch\<rparr>, w\<lparr>channelCache := cache\<rparr>), Inr ch)
     | (cache, None) \<Rightarrow>
         (case getChannel env (channelId s) fs of
            Inl e \<Rightarrow> ((s, w), Inl e)
          | Inr ch \<Rightarrow>
              ((s\<lparr>channel := Some ch\<rparr>,
                w\<lparr>channelCache := SharedCache_set (session_id s) (channelId s) ch cache\<rparr>),
               Inr ch)))"

definition observeUser ::
  "env \<Rightarrow> string list \<Rightarrow> session \<times> world \<Rightarrow> (session \<times> world) \<times> (error + user)" where
  "observeUser env fs = (\<lambda>(s, w).
     case SharedCache_get (session_id s) (userId s) (userCache w) of
       (cache, Some u) \<Rightarrow> ((s\<lparr>user := Some u\<rparr>, w\<lparr>userCache := cache\<rparr>), Inr u)
     | (cache, None) \<Rightarrow>
         (case getUser env (userId s) fs of
            Inl e \<Rightarrow> ((s, w), Inl e)
          | Inr u \<Rightarrow>
              ((s\<lparr>user := Some u\<rparr>,
                w\<lparr>userCache := SharedCache_set (session_id s) (userId s) u cache\<rparr>),
               Inr u)))"

text \<open>The channel part of \<^verbatim>\<open>_process\<close>. The result is the error thrown, or whether
  \<^verbatim>\<open>_process\<close> returns here.\<close>

definition attach_channel ::
  "env \<Rightarrow> bool \<Rightarrow> session \<times> world \<Rightarrow> (session \<times> world \<times> event list) \<times> (error + bool)" where
  "attach_channel env atSelf = (\<lambda>(s, w).
     let channelFields = before_attach_channel env [''flag'', ''assignee'', ''guildId'', ''locale''];
         ev = [EvEmit ''before-attach-channel'']
     in case observeChannel env channelFields (s, w) of
          ((s1, w1), Inl e) \<Rightarrow> ((s1, w1, ev), Inl e)
        | ((s1, w1), Inr ch0) \<Rightarrow>
            let ch = ch0\<lparr>channel_guildId := guildId s\<rparr>;
                s2 = s1\<lparr>channel := Some ch\<rparr>;
                ev2 = ev @ [EvEmit ''attach-channel'']
            in case serial_attach_channel env of
                 Inl e \<Rightarrow> ((s2, w1, ev2), Inl e)
               | Inr bail \<Rightarrow>
                   if bail then ((s2, w1, ev2), Inr True)
                   else if channel_flag ch AND Channel_Flag_ignore env \<noteq> 0
                     then ((s2, w1, ev2), Inr True)
                   else if channel_assignee ch \<noteq> selfId s \<and> \<not> atSelf
                     then ((s2, w1, ev2), Inr True)
                   else ((s2, w1, ev2), Inr False))"

text \<open>The user part of \<^verbatim>\<open>_process\<close>.\<close>

definition attach_user ::
  "env \<Rightarrow> session \<times> world \<Rightarrow> (session \<times> world \<times> event list) \<times> (error + bool)" where
  "attach_user env = (\<lambda>(s, w).
     let userFields = before_attach_user env [''flag'', ''authority'', ''locale''];
         ev = [EvEmit ''before-attach-user'']
     in case observeUser env userFields (s, w) of
          ((s1, w1), Inl e) \<Rightarrow> ((s1, w1, ev), Inl e)
        | ((s1, w1), Inr u) \<Rightarrow>
            let ev2 = ev @ [EvEmit ''attach-user'']
            in case serial_attach_user env of
                 Inl e \<Rightarrow> ((s1, w1, ev2), Inl e)
               | Inr bail \<Rightarrow>
                   if bail then ((s1, w1, ev2), Inr True)
                   else if user_flag u AND User_Flag_ignore env \<noteq> 0
                     then ((s1, w1, ev2), Inr True)
                   else ((s1, w1, ev2), Inr False))"

section \<open>Middleware and the next function\<close>

text \<open>
  \<^verbatim>\<open>Next.Callback\<close> is \<^verbatim>\<open>void | string | function\<close>; \<^verbatim>\<open>undefined\<close> is \<open>None\<close>. What a handler
  does is a tree: it returns nothing or a fragment, throws, or awaits \<^verbatim>\<open>next(callback)\<close> and
  goes on with the value \<^verbatim>\<open>next\<close> resolved to. Every \<^verbatim>\<open>next\<close> a handler receives is the one
  closure of \<^verbatim>\<open>_handleMessage\<close>, so a call needs no receiver.
\<close>

datatype 'p callback = CbText jsstring | CbFun 'p

datatype prog =
    Return "jsstring option"
  | Throw error
  | CallNext "prog callback option" "jsstring option \<Rightarrow> prog"

text \<open>\<^verbatim>\<open>Next.compose(callback, next)\<close>: a function is called, anything else is the value.\<close>

fun compose :: "prog callback option \<Rightarrow> prog" where
  "compose None = Return None"
| "compose (Some (CbText t)) = Return (Some t)"
| "compose (Some (CbFun p)) = p"

text \<open>A registered middleware is the built-in \<^verbatim>\<open>_process\<close> or a handler, which reads the
  session it is bound to when it is invoked. A hook pairs it with the filter of the context
  that registered it.\<close>

datatype middleware = Process | Handler "session \<Rightarrow> prog"

type_synonym hook = "(session \<Rightarrow> bool) \<times> middleware"

text \<open>An entry of the queue: a middleware bound to the session, or
  \<^verbatim>\<open>next => Next.compose(callback, next)\<close>.\<close>

datatype queued = Bound middleware | Composed "prog callback"

text \<open>The second part of \<^verbatim>\<open>_process\<close>, from \<^verbatim>\<open>if (this.ctx.database)\<close> on: the changed session
  and state, the notifications emitted, and how the function ends: it returns, throws, or
  returns \<^verbatim>\<open>next()\<close>.\<close>

definition attach ::
  "env \<Rightarrow> bool \<Rightarrow> session \<times> world \<Rightarrow> (session \<times> world \<times> event list) \<times> prog" where
  "attach env atSelf = (\<lambda>(s, w).
     if database env then
       (case (if subtype s = ''group'' then attach_channel env atSelf (s, w)
              else ((s, w, []), Inr False)) of
          ((s2, w2, ev2), r2) \<Rightarrow>
            (case r2 of
               Inl e \<Rightarrow> ((s2, w2, ev2), Throw e)
             | Inr stop \<Rightarrow>
                 if stop then ((s2, w2, ev2), Return None)
                 else
                   (case attach_user env (s2, w2) of
                      ((s3, w3, ev3), r3) \<Rightarrow>
                        (case r3 of
                           Inl e \<Rightarrow> ((s3, w3, ev2 @ ev3), Throw e)
                         | Inr stop \<Rightarrow>
                             if stop then ((s3, w3, ev2 @ ev3), Return None)
                             else ((s3, w3, ev2 @ ev3 @ [EvEmit ''attach'']),
                                   CallNext None Return)))))
     else ((s, w, [EvEmit ''attach'']), CallNext None Return))"

text \<open>\<^verbatim>\<open>_process\<close>: the elements are parsed when the session has none, the parsed message is
  stored on the session, \<^verbatim>\<open>before-attach\<close> is emitted, and the attach pipeline runs.\<close>

definition process :: "env \<Rightarrow> session \<times> world \<Rightarrow> (session \<times> world \<times> event list) \<times> prog" where
  "process env = (\<lambda>(s, w).
     let els = (case elements s of Some els \<Rightarrow> els | None \<Rightarrow> segment_parse env (trim (content s)));
         (p, atSelf) = parse_message env s els;
         s1 = s\<lparr>elements := Some els, parsed := Some p\<rparr>
     in case attach env atSelf (s1, w) of
          ((s', w', ev), r) \<Rightarrow> ((s', w', EvEmit ''before-attach'' # ev), r))"

text \<open>
  The state of one \<^verbatim>\<open>_handleMessage\<close>: the function that runs, the handlers that await a
  \<^verbatim>\<open>next\<close> call (innermost first), the variables \<^verbatim>\<open>queue\<close> and \<^verbatim>\<open>index\<close> of the closure, the
  session, the state of \<^verbatim>\<open>Internal\<close>, and what happened so far.
\<close>

record config =
  control :: prog
  stack :: "(jsstring option \<Rightarrow> prog) list"
  queue :: "queued list"
  index :: nat
  sess :: session
  world :: world
  trace :: "event list"

definition MAX_DEPTH :: nat where
  "MAX_DEPTH = 64"

text \<open>The \<^verbatim>\<open>try\<close> block of \<^verbatim>\<open>next\<close>, up to the choice of \<^verbatim>\<open>queue[index++]\<close>: the error thrown,
  or the entry to call (none when the index is past the queue).\<close>

definition next_try :: "prog callback option \<Rightarrow> config \<Rightarrow> config \<times> (error + queued option)" where
  "next_try callback c =
     (if sessions (world c) (session_id (sess c)) = None
      then (c, Inl (Error ''isolated next function detected''))
      else
        let c1 = (case callback of
                    None \<Rightarrow> c
                  | Some cb \<Rightarrow> c\<lparr>queue := queue c @ [Composed cb]\<rparr>)
        in if callback \<noteq> None \<and> length (queue c1) > MAX_DEPTH
           then (c1, Inl (Error ''middleware stack exceeded 64''))
           else (c1\<lparr>index := Suc (index c1)\<rparr>,
                 Inr (if index c1 < length (queue c1) then Some (queue c1 ! index c1) else None)))"

text \<open>The \<^verbatim>\<open>catch\<close> block of \<^verbatim>\<open>next\<close>: the value \<^verbatim>\<open>next\<close> resolves to.\<close>

definition next_catch :: "env \<Rightarrow> error \<Rightarrow> config \<Rightarrow> config \<times> jsstring option" where
  "next_catch env e c =
     (case e of
        SessionError path param \<Rightarrow>
          (c\<lparr>trace := trace c @ [EvText path param]\<rparr>, Some (session_text env path param))
      | Error msg \<Rightarrow>
          (c\<lparr>trace := trace c @ [EvWarn (content (sess c)) e]\<rparr>, None))"

text \<open>Calling an entry of the queue with \<^verbatim>\<open>next\<close>.\<close>

definition invoke :: "env \<Rightarrow> queued \<Rightarrow> config \<Rightarrow> config" where
  "invoke env en c =
     (case en of
        Composed cb \<Rightarrow> c\<lparr>control := compose (Some cb)\<rparr>
      | Bound (Handler h) \<Rightarrow> c\<lparr>control := h (sess c)\<rparr>
      | Bound Process \<Rightarrow>
          (case process env (sess c, world c) of
             ((s, w, evs), p) \<Rightarrow> c\<lparr>control := p, sess := s, world := w, trace := trace c @ evs\<rparr>))"

text \<open>
  One step. A function that returns, or throws into the \<^verbatim>\<open>catch\<close> of the \<^verbatim>\<open>next\<close> call that
  invoked it, resumes the handler awaiting that call; a \<^verbatim>\<open>next\<close> call either fails in its own
  \<^verbatim>\<open>try\<close> block, finds no entry, or invokes \<^verbatim>\<open>queue[index]\<close>. No step is left when the
  outermost function has returned or thrown.
\<close>

definition step :: "env \<Rightarrow> config \<Rightarrow> config option" where
  "step env c =
     (case control c of
        Return r \<Rightarrow>
          (case stack c of
             [] \<Rightarrow> None
           | k # ks \<Rightarrow> Some (c\<lparr>control := k r, stack := ks\<rparr>))
      | Throw e \<Rightarrow>
          (case stack c of
             [] \<Rightarrow> None
           | k # ks \<Rightarrow>
               (case next_catch env e c of
                  (c1, r) \<Rightarrow> Some (c1\<lparr>control := k r, stack := ks\<rparr>)))
      | CallNext callback k \<Rightarrow>
          (case next_try callback c of
             (c1, Inl e) \<Rightarrow>
               (case next_catch env e c1 of (c2, r) \<Rightarrow> Some (c2\<lparr>control := k r\<rparr>))
           | (c1, Inr None) \<Rightarrow> Some (c1\<lparr>control := k None\<rparr>)
           | (c1, Inr (Some en)) \<Rightarrow>
               Some (invoke env en
                 (c1\<lparr>stack := k # stack c1, trace := trace c1 @ [EvInvoke (index c)]\<rparr>))))"


section \<open>Running a dispatch\<close>

text \<open>
  Every handler is a well-founded tree, so a dispatch comes to an end. The measure is the
  multiset of what is still to run: the running function, the awaiting handlers and the
  entries of the queue from the index on. A step replaces some of them by smaller ones.
\<close>

datatype item = IProg prog | IFrame "jsstring option \<Rightarrow> prog" | IQueued queued

inductive_set smaller :: "(item \<times> item) set" where
  resume: "(IProg (k r), IFrame k) \<in> smaller"
| await: "(IFrame k, IProg (CallNext cb k)) \<in> smaller"
| continue: "(IProg (k r), IProg (CallNext cb k)) \<in> smaller"
| pushed: "(IQueued (Composed x), IProg (CallNext (Some x) k)) \<in> smaller"
| direct: "(IProg (compose cb), IProg (CallNext cb k)) \<in> smaller"
| composed: "(IProg (compose (Some x)), IQueued (Composed x)) \<in> smaller"
| bound: "(IProg p, IQueued (Bound m)) \<in> smaller"

inductive_cases below_Return: "(y, IProg (Return r)) \<in> smaller"
inductive_cases below_Throw: "(y, IProg (Throw e)) \<in> smaller"
inductive_cases below_CallNext: "(y, IProg (CallNext cb k)) \<in> smaller"
inductive_cases below_IFrame: "(y, IFrame k) \<in> smaller"
inductive_cases below_IQueued: "(y, IQueued q) \<in> smaller"

lemma acc_Return: "IProg (Return r) \<in> Wellfounded.acc smaller"
  by (rule accI) (erule below_Return)

lemma acc_IProg: "IProg p \<in> Wellfounded.acc smaller"
proof (induction p)
  case (Return r)
  show ?case by (rule acc_Return)
next
  case (Throw e)
  show ?case by (rule accI) (erule below_Throw)
next
  case (CallNext cb k)
  have k: "IProg (k r) \<in> Wellfounded.acc smaller" for r
    using CallNext.IH(2) by (simp add: rangeI)
  have frame: "IFrame k \<in> Wellfounded.acc smaller"
    by (rule accI) (erule below_IFrame, simp add: k)
  have comp: "IProg (compose cb) \<in> Wellfounded.acc smaller"
  proof (cases cb)
    case None
    then show ?thesis by (simp add: acc_Return)
  next
    case (Some x)
    show ?thesis
    proof (cases x)
      case (CbText t)
      with Some show ?thesis by (simp add: acc_Return)
    next
      case (CbFun p)
      with Some CallNext.IH(1) show ?thesis by auto
    qed
  qed
  have queued: "IQueued (Composed x) \<in> Wellfounded.acc smaller" if "cb = Some x" for x
    by (rule accI) (erule below_IQueued, use comp that in simp_all)
  show ?case
    by (rule accI) (erule below_CallNext; simp add: k frame comp queued)
qed

lemma wf_smaller: "wf smaller"
proof -
  have "x \<in> Wellfounded.acc smaller" for x
  proof (cases x)
    case (IProg p)
    then show ?thesis by (simp add: acc_IProg)
  next
    case (IFrame k)
    show ?thesis unfolding IFrame
      by (rule accI) (erule below_IFrame, simp add: acc_IProg)
  next
    case (IQueued q)
    show ?thesis unfolding IQueued
      by (rule accI) (erule below_IQueued, simp_all add: acc_IProg)
  qed
  then show ?thesis by (simp add: wf_iff_acc)
qed

definition pending :: "config \<Rightarrow> item multiset" where
  "pending c =
     add_mset (IProg (control c))
       (mset (map IFrame (stack c)) + mset (map IQueued (drop (index c) (queue c))))"

lemma mult_replace:
  assumes "A = I + K" and "B = I + J" and "J \<noteq> {#}"
    and "\<And>k. k \<in># K \<Longrightarrow> \<exists>j. j \<in># J \<and> (k, j) \<in> r"
  shows "(A, B) \<in> mult r"
  unfolding assms(1,2) using assms(3,4) by (intro one_step_implies_mult) auto

lemma invoke_same [simp]:
  "stack (invoke env en c) = stack c"
  "queue (invoke env en c) = queue c"
  "index (invoke env en c) = index c"
  by (auto simp: invoke_def split: queued.splits middleware.splits prod.splits)

lemma invoke_smaller: "(IProg (control (invoke env en c)), IQueued en) \<in> smaller"
  by (auto simp: invoke_def smaller.composed smaller.bound split: queued.splits middleware.splits prod.splits)

lemma decrease_resume:
  assumes "stack c = k # ks" "control c' = k r" "stack c' = ks"
    "queue c' = queue c" "index c' = index c"
  shows "(pending c', pending c) \<in> mult smaller"
  by (rule mult_replace [where
        I = "mset (map IFrame ks) + mset (map IQueued (drop (index c) (queue c)))"
        and K = "{#IProg (k r)#}" and J = "{#IProg (control c), IFrame k#}"])
     (auto simp: pending_def assms smaller.resume)

lemma decrease_fail:
  assumes "control c = CallNext cb k" "control c' = k r" "stack c' = stack c"
    "index c' = index c"
    "queue c' = queue c \<or> (\<exists>x. cb = Some x \<and> queue c' = queue c @ [Composed x])"
  shows "(pending c', pending c) \<in> mult smaller"
proof -
  from assms(5) obtain K where
    K: "image_mset IQueued (mset (drop (index c) (queue c'))) =
          image_mset IQueued (mset (drop (index c) (queue c))) + K"
       "\<And>y. y \<in># K \<Longrightarrow> (y, IProg (CallNext cb k)) \<in> smaller"
  proof
    assume "queue c' = queue c"
    then show ?thesis by (intro that [of "{#}"]) auto
  next
    assume "\<exists>x. cb = Some x \<and> queue c' = queue c @ [Composed x]"
    then obtain x where x: "cb = Some x" "queue c' = queue c @ [Composed x]" by blast
    show ?thesis
    proof (cases "index c \<le> length (queue c)")
      case True
      with x show ?thesis
        by (intro that [of "{#IQueued (Composed x)#}"]) (auto simp: smaller.pushed)
    next
      case False
      with x show ?thesis by (intro that [of "{#}"]) auto
    qed
  qed
  show ?thesis
    by (rule mult_replace [where
          I = "mset (map IFrame (stack c)) + mset (map IQueued (drop (index c) (queue c)))"
          and K = "add_mset (IProg (k r)) K" and J = "{#IProg (control c)#}"])
       (auto simp: pending_def assms(1-4) K smaller.continue)
qed

lemma decrease_exhausted:
  assumes "control c = CallNext cb k" "control c' = k r" "stack c' = stack c"
    "index c' = Suc (index c)" "length (queue c) \<le> length (queue c')"
    "length (queue c') \<le> index c"
  shows "(pending c', pending c) \<in> mult smaller"
  by (rule mult_replace [where
        I = "mset (map IFrame (stack c))"
        and K = "{#IProg (k r)#}" and J = "{#IProg (control c)#}"])
     (use assms in \<open>auto simp: pending_def smaller.continue\<close>)

lemma decrease_invoke:
  assumes "control c = CallNext cb k" "stack c' = k # stack c"
    "index c' = Suc (index c)" "index c < length (queue c')"
    "queue c' = queue c \<or> (\<exists>x. cb = Some x \<and> queue c' = queue c @ [Composed x])"
    "(IProg (control c'), IQueued (queue c' ! index c)) \<in> smaller"
  shows "(pending c', pending c) \<in> mult smaller"
proof (cases "index c < length (queue c)")
  case True
  then have old: "drop (index c) (queue c) = queue c ! index c # drop (Suc (index c)) (queue c)"
    by (simp add: Cons_nth_drop_Suc)
  from assms(5) True have same: "queue c' ! index c = queue c ! index c"
    by (auto simp: nth_append)
  from assms(5) obtain K where
    K: "image_mset IQueued (mset (drop (Suc (index c)) (queue c'))) =
          image_mset IQueued (mset (drop (Suc (index c)) (queue c))) + K"
       "\<And>y. y \<in># K \<Longrightarrow> (y, IProg (CallNext cb k)) \<in> smaller"
  proof
    assume "queue c' = queue c"
    then show ?thesis by (intro that [of "{#}"]) auto
  next
    assume "\<exists>x. cb = Some x \<and> queue c' = queue c @ [Composed x]"
    then obtain x where x: "cb = Some x" "queue c' = queue c @ [Composed x]" by blast
    with True show ?thesis
      by (intro that [of "{#IQueued (Composed x)#}"]) (auto simp: smaller.pushed)
  qed
  show ?thesis
    by (rule mult_replace [where
          I = "mset (map IFrame (stack c)) + mset (map IQueued (drop (Suc (index c)) (queue c)))"
          and K = "add_mset (IProg (control c')) (add_mset (IFrame k) K)"
          and J = "{#IProg (control c), IQueued (queue c ! index c)#}"])
       (use assms(6) in \<open>auto simp: pending_def assms(1-3) K old same smaller.await\<close>)
next
  case False
  with assms(4,5) obtain x where x: "cb = Some x" "queue c' = queue c @ [Composed x]"
    "index c = length (queue c)"
    by auto
  then have direct: "(IProg (control c'), IProg (CallNext cb k)) \<in> smaller"
    using assms(6) by (auto elim!: below_IQueued simp: smaller.direct [of "Some x", simplified])
  show ?thesis
    by (rule mult_replace [where
          I = "mset (map IFrame (stack c))"
          and K = "{#IProg (control c'), IFrame k#}" and J = "{#IProg (control c)#}"])
       (use direct in \<open>auto simp: pending_def assms(1-3) x smaller.await\<close>)
qed

lemma next_catch_keeps:
  assumes "next_catch env e c = (c2, r)"
  shows "control c2 = control c" "stack c2 = stack c" "queue c2 = queue c"
    "index c2 = index c" "sess c2 = sess c" "world c2 = world c"
  using assms by (cases e; auto simp: next_catch_def)+

lemma step_decreases:
  assumes "step env c = Some c'"
  shows "(pending c', pending c) \<in> mult smaller"
proof (cases "control c")
  case (Return r)
  with assms show ?thesis
    by (auto simp: step_def split: list.splits intro!: decrease_resume)
next
  case (Throw e)
  with assms show ?thesis
    by (auto simp: step_def next_catch_keeps split: list.splits prod.splits
        intro!: decrease_resume)
next
  case (CallNext cb k)
  define q' where "q' = (case cb of None \<Rightarrow> queue c | Some x \<Rightarrow> queue c @ [Composed x])"
  have q': "q' = queue c \<or> (\<exists>x. cb = Some x \<and> q' = queue c @ [Composed x])"
    by (auto simp: q'_def split: option.splits)
  have len: "length (queue c) \<le> length q'"
    using q' by auto
  consider
    (isolated) "sessions (world c) (session_id (sess c)) = None"
  | (exceeded) "sessions (world c) (session_id (sess c)) \<noteq> None"
      "cb \<noteq> None \<and> length q' > MAX_DEPTH"
  | (exhausted) "sessions (world c) (session_id (sess c)) \<noteq> None"
      "\<not> (cb \<noteq> None \<and> length q' > MAX_DEPTH)" "\<not> index c < length q'"
  | (invoked) "sessions (world c) (session_id (sess c)) \<noteq> None"
      "\<not> (cb \<noteq> None \<and> length q' > MAX_DEPTH)" "index c < length q'"
    by blast
  then show ?thesis
  proof cases
    case isolated
    with assms CallNext show ?thesis
      by (auto simp: step_def next_try_def next_catch_keeps split: prod.splits
          intro!: decrease_fail)
  next
    case exceeded
    then have "next_try cb c = (c\<lparr>queue := q'\<rparr>, Inl (Error ''middleware stack exceeded 64''))"
      by (auto simp: next_try_def q'_def Let_def split: option.splits)
    with assms CallNext q' show ?thesis
      by (auto simp: step_def next_catch_keeps split: prod.splits intro!: decrease_fail)
  next
    case exhausted
    then have "next_try cb c = (c\<lparr>queue := q', index := Suc (index c)\<rparr>, Inr None)"
      by (auto simp: next_try_def q'_def Let_def split: option.splits)
    with assms CallNext len exhausted(3) show ?thesis
      by (auto simp: step_def intro!: decrease_exhausted)
  next
    case invoked
    then have "next_try cb c =
        (c\<lparr>queue := q', index := Suc (index c)\<rparr>, Inr (Some (q' ! index c)))"
      by (auto simp: next_try_def q'_def Let_def split: option.splits)
    with assms CallNext have c': "c' = invoke env (q' ! index c)
        (c\<lparr>queue := q', index := Suc (index c), stack := k # stack c,
           trace := trace c @ [EvInvoke (index c)]\<rparr>)"
      by (auto simp: step_def)
    show ?thesis
      by (rule decrease_invoke [where cb = cb and k = k])
         (use CallNext q' invoked(3) in \<open>auto simp: c' invoke_smaller\<close>)
  qed
qed

function run :: "env \<Rightarrow> config \<Rightarrow> config" where
  "run env c = (case step env c of None \<Rightarrow> c | Some c' \<Rightarrow> run env c')"
  by pat_completeness auto
termination
  by (relation "inv_image (mult smaller) (\<lambda>(env, c). pending c)")
     (auto simp: wf_mult wf_smaller step_decreases)

declare run.simps [simp del]


section \<open>Handling a message\<close>

text \<open>\<^verbatim>\<open>await record?.$update()\<close>: nothing for an absent record; the call may reject.\<close>

definition update_record :: "'a option \<Rightarrow> error option \<Rightarrow> string \<Rightarrow> event list \<times> error option" where
  "update_record r failure kind = (case r of None \<Rightarrow> ([], None) | Some _ \<Rightarrow> ([EvUpdate kind], failure))"

definition flush :: "env \<Rightarrow> session \<Rightarrow> event list \<times> error option" where
  "flush env s =
     (case update_record (user s) (update_user env) ''user'' of
        (ev1, Some e) \<Rightarrow> (ev1, Some e)
      | (ev1, None) \<Rightarrow>
          (case update_record (channel s) (update_channel env) ''channel'' of
             (ev2, Some e) \<Rightarrow> (ev1 @ ev2, Some e)
           | (ev2, None) \<Rightarrow>
               (case update_record (guild s) (update_guild env) ''guild'' of
                  (ev3, r) \<Rightarrow> (ev1 @ ev2 @ ev3, r))))"

text \<open>The \<^verbatim>\<open>finally\<close> block of \<^verbatim>\<open>_handleMessage\<close>: the new state, what happened, and the error
  a rejected update throws.\<close>

definition teardown :: "env \<Rightarrow> session \<Rightarrow> world \<Rightarrow> world \<times> event list \<times> error option" where
  "teardown env s w =
     (let w1 = w\<lparr>sessions := (sessions w)(session_id s := None)\<rparr>;
          w2 = w1\<lparr>userCache := SharedCache_delete (session_id s) (userCache w1)\<rparr>;
          w3 = w2\<lparr>channelCache := SharedCache_delete (session_id s) (channelCache w2)\<rparr>;
          ev = [EvUnregister (session_id s), EvEmit ''middleware'',
                EvReleaseUser (session_id s), EvReleaseChannel (session_id s)]
      in case flush env s of (ev', err) \<Rightarrow> (w3, ev @ ev', err))"

text \<open>The configuration in which \<^verbatim>\<open>_handleMessage\<close> awaits its call \<^verbatim>\<open>next()\<close>: the session is
  registered, the queue is the filtered hooks bound to the session, the index is 0. The
  running function is the \<^verbatim>\<open>try\<close> block up to the value of \<^verbatim>\<open>await next()\<close>.\<close>

definition initial :: "hook list \<Rightarrow> session \<Rightarrow> world \<Rightarrow> config" where
  "initial hooks s w =
     \<lparr>control = CallNext None Return, stack = [],
      queue = map (\<lambda>(ctx, mw). Bound mw) (filter (\<lambda>(ctx, mw). ctx s) hooks),
      index = 0, sess = s,
      world = w\<lparr>sessions := (sessions w)(session_id s \<mapsto> s)\<rparr>, trace = []\<rparr>"

text \<open>The rest of the \<^verbatim>\<open>try\<close> block: a truthy result is sent; an error of \<^verbatim>\<open>next()\<close> or of the
  transport leaves the block. A fragment is truthy when it is a non-empty string.\<close>

definition deliver :: "env \<Rightarrow> prog \<Rightarrow> event list \<times> error option" where
  "deliver env p =
     (case p of
        Return r \<Rightarrow>
          (case r of
             None \<Rightarrow> ([], None)
           | Some t \<Rightarrow> if t \<noteq> [] then ([EvSend t], session_send env t) else ([], None))
      | Throw e \<Rightarrow> ([], Some e)
      | CallNext cb k \<Rightarrow> ([], None))"

text \<open>
  \<^verbatim>\<open>_handleMessage\<close>: the session and the state afterwards, what happened, and the error that
  leaves the function, if one does. An error of the \<^verbatim>\<open>finally\<close> block replaces the one of
  the \<^verbatim>\<open>try\<close> block.
\<close>

definition handleMessage ::
  "env \<Rightarrow> hook list \<Rightarrow> session \<Rightarrow> world \<Rightarrow> session \<times> world \<times> event list \<times> error option" where
  "handleMessage env hooks s w =
     (if selfId s = userId s then (s, w, [], None)
      else
        let c = run env (initial hooks s w);
            (ev_try, err_try) = deliver env (control c);
            (w', ev_fin, err_fin) = teardown env (sess c) (world c)
        in (sess c, w', trace c @ ev_try @ ev_fin,
            case err_fin of Some e \<Rightarrow> Some e | None \<Rightarrow> err_try))"


section \<open>Observations and example data\<close>

text \<open>The referrers that hold the entry of a key; none when the key has no entry.\<close>

definition holders :: "'v keyMap \<Rightarrow> string \<Rightarrow> string fset" where
  "holders m k = (case map_of m k of None \<Rightarrow> {||} | Some e \<Rightarrow> refs e)"

text \<open>The referrers that touched a key in a sequence of operations, in order.\<close>

definition touchers :: "string \<Rightarrow> 'v cache_op list \<Rightarrow> string list" where
  "touchers k ops = List.map_filter (touches k) ops"

text \<open>What \<^verbatim>\<open>delete(ref)\<close> leaves of the entry of one key.\<close>

fun release :: "string \<Rightarrow> 'v entry option \<Rightarrow> 'v entry option" where
  "release ref None = None"
| "release ref (Some e) =
     (if refs e |-| {|ref|} = {||} then None else Some (e\<lparr>refs := refs e |-| {|ref|}\<rparr>))"

text \<open>An example: a bot called \<open>Bot\<close> with the default prefix, a database whose records
  carry no flag, listeners that let every session through, and a group message.\<close>

definition env0 :: env where
  "env0 = \<lparr>nickname = [ascii ''Bot''], resolved_prefix = PUndefined,
     segment_parse = (\<lambda>c. [\<lparr>etype = ''text'', attrs_id = None, attrs_content = c\<rparr>]),
     segment_escape = (\<lambda>x. x), element_toString = attrs_content, database = True,
     Channel_Flag_ignore = 1, User_Flag_ignore = 1,
     before_attach_channel = (\<lambda>x. x), before_attach_user = (\<lambda>x. x),
     getChannel = (\<lambda>k f. Inr \<lparr>channel_flag = 0, channel_assignee = ''bot'', channel_guildId = ''''\<rparr>),
     getUser = (\<lambda>k f. Inr \<lparr>user_flag = 0, user_authority = 1\<rparr>),
     serial_attach_channel = Inr False, serial_attach_user = Inr False,
     session_text = (\<lambda>p q. ascii (concat p)), session_send = (\<lambda>x. None),
     update_user = None, update_channel = None, update_guild = None\<rparr>"

definition s0 :: session where
  "s0 = \<lparr>session_id = ''m1'', content = ascii ''Bot, hello'', elements = None,
     selfId = ''bot'', userId = ''alice'', channelId = ''room'', guildId = ''g'',
     subtype = ''group'', parsed = None, user = None, channel = None, guild = None\<rparr>"

definition w0 :: world where
  "w0 = \<lparr>sessions = Map.empty, userCache = [], channelCache = []\<rparr>"

text \<open>The configurations a dispatch reaches from a given one, step by step.\<close>

inductive reaches :: "env \<Rightarrow> config \<Rightarrow> config \<Rightarrow> bool" for env c where
  here: "reaches env c c"
| further: "reaches env c c' \<Longrightarrow> step env c' = Some c'' \<Longrightarrow> reaches env c c''"

text \<open>The indices of the queue entries invoked, and the fragments sent, in order.\<close>

fun invoked :: "event list \<Rightarrow> nat list" where
  "invoked [] = []"
| "invoked (EvInvoke i # es) = i # invoked es"
| "invoked (e # es) = invoked es"

fun sent :: "event list \<Rightarrow> jsstring list" where
  "sent [] = []"
| "sent (EvSend t # es) = t # sent es"
| "sent (e # es) = sent es"

text \<open>The events of the \<^verbatim>\<open>next\<close> function and of \<^verbatim>\<open>_process\<close>, as opposed to those of the
  \<^verbatim>\<open>try\<close> and \<^verbatim>\<open>finally\<close> blocks of \<^verbatim>\<open>_handleMessage\<close>.\<close>

fun inner_event :: "event \<Rightarrow> bool" where
  "inner_event (EvInvoke i) = True"
| "inner_event (EvWarn c e) = True"
| "inner_event (EvText p q) = True"
| "inner_event (EvEmit n) = True"
| "inner_event e = False"

text \<open>The events of the teardown that the claims count.\<close>

fun final_event :: "event \<Rightarrow> bool" where
  "final_event (EvUnregister i) = True"
| "final_event (EvReleaseUser i) = True"
| "final_event (EvReleaseChannel i) = True"
| "final_event e = False"

text \<open>Example handlers: the first gives \<^verbatim>\<open>next\<close> the continuation \<open>a\<close> and returns what
  \<^verbatim>\<open>next\<close> resolves to, the second returns \<open>b\<close>.\<close>

definition hooks_ab :: "hook list" where
  "hooks_ab = [(\<lambda>s. True, Handler (\<lambda>s. CallNext (Some (CbText (ascii ''a''))) Return)),
               (\<lambda>s. True, Handler (\<lambda>s. Return (Some (ascii ''b''))))]"

text \<open>A captured \<^verbatim>\<open>next\<close> of a finished dispatch: the registry is empty, one handler is queued.\<close>

definition late_call :: config where
  "late_call = \<lparr>control = CallNext None Return, stack = [],
     queue = [Bound (Handler (\<lambda>s. Return (Some (ascii ''late''))))], index = 0,
     sess = s0, world = w0, trace = []\<rparr>"

text \<open>The warnings logged, in order.\<close>

fun warnings :: "event list \<Rightarrow> error list" where
  "warnings [] = []"
| "warnings (EvWarn c e # es) = e # warnings es"
| "warnings (e # es) = warnings es"


text \<open>Example hooks: 64 handlers, of which the first gives \<^verbatim>\<open>next\<close> the continuation \<open>a\<close>
  and then returns \<open>end\<close>, and the others return nothing. And the configuration in which
  that first handler makes its call.\<close>

definition hooks_full :: "hook list" where
  "hooks_full =
     (\<lambda>s. True, Handler (\<lambda>s. CallNext (Some (CbText (ascii ''a'')))
        (\<lambda>r. Return (Some (ascii ''end'')))))
     # replicate 63 (\<lambda>s. True, Handler (\<lambda>s. Return None))"

definition pushing_call :: config where
  "pushing_call = (initial hooks_full s0 w0)\<lparr>control :=
       CallNext (Some (CbText (ascii ''a''))) (\<lambda>r. Return (Some (ascii ''end''))),
     index := 1, stack := [Return], trace := [EvInvoke 0]\<rparr>"


text \<open>Example hooks: \<^verbatim>\<open>_process\<close>, a handler that returns \<^verbatim>\<open>next()\<close>, and a handler that throws
  the session error \<open>errors.no-permission\<close>. And two handlers of which the first awaits
  \<^verbatim>\<open>next()\<close> and returns nothing, while the second throws that error.\<close>

definition hooks_denied :: "hook list" where
  "hooks_denied =
     [(\<lambda>s. True, Process),
      (\<lambda>s. True, Handler (\<lambda>s. CallNext None Return)),
      (\<lambda>s. True, Handler (\<lambda>s. Throw (SessionError [''errors.no-permission''] [])))]"

definition hooks_swallow :: "hook list" where
  "hooks_swallow =
     [(\<lambda>s. True, Handler (\<lambda>s. CallNext None (\<lambda>r. Return None))),
      (\<lambda>s. True, Handler (\<lambda>s. Throw (SessionError [''errors.no-permission''] [])))]"


section \<open>The shared cache\<close>

lemma release_idem: "release r (release r x) = release r x"
  by (cases x) auto

lemma delete_step_lookup:
  "map_of (delete_step r k m) k' = (if k' = k then release r (map_of m k) else map_of m k')"
  by (cases "map_of m k")
     (auto simp: delete_step_def Let_def update_conv' delete_conv')

lemma fold_delete_step_lookup:
  "map_of (fold (delete_step r) ks m) k =
     (if k \<in> set ks then release r (map_of m k) else map_of m k)"
proof (induction ks arbitrary: m)
  case Nil
  show ?case by simp
next
  case (Cons a ks)
  show ?case
    by (simp add: Cons.IH delete_step_lookup release_idem)
qed

lemma SharedCache_delete_lookup:
  "map_of (SharedCache_delete r m) k = release r (map_of m k)"
proof (cases "k \<in> fst ` set m")
  case True
  then show ?thesis by (simp add: SharedCache_delete_def fold_delete_step_lookup)
next
  case False
  then have "map_of m k = None" by (simp add: map_of_eq_None_iff)
  with False show ?thesis by (simp add: SharedCache_delete_def fold_delete_step_lookup)
qed

lemma SharedCache_get_lookup:
  "map_of (fst (SharedCache_get r k m)) k' =
     (if k' = k then map_option (refs_add r) (map_of m k) else map_of m k')"
  by (cases "map_of m k") (auto simp: SharedCache_get_def update_conv')

lemma SharedCache_set_lookup:
  "map_of (SharedCache_set r k v m) k' =
     (if k' = k
      then Some (refs_add r (case map_of m k of
                   Some e \<Rightarrow> e\<lparr>entry_value := v\<rparr>
                 | None \<Rightarrow> \<lparr>entry_value = v, entry_key = k, refs = {||}\<rparr>))
      else map_of m k')"
  by (auto simp: SharedCache_set_def Let_def update_conv')

lemma holders_delete: "holders (SharedCache_delete r m) k = holders m k |-| {|r|}"
  by (cases "map_of m k") (auto simp: holders_def SharedCache_delete_lookup)

lemma holders_get:
  "holders (fst (SharedCache_get r k' m)) k =
     (if k = k' \<and> map_of m k \<noteq> None then finsert r (holders m k) else holders m k)"
  by (cases "map_of m k'") (auto simp: holders_def SharedCache_get_lookup refs_add_def)

lemma holders_set:
  "holders (SharedCache_set r k' v m) k =
     (if k = k' then finsert r (holders m k) else holders m k)"
  by (cases "map_of m k'") (auto simp: holders_def SharedCache_set_lookup refs_add_def)

lemma holders_apply_op:
  "r |\<in>| holders (apply_op op m) k \<Longrightarrow> r |\<in>| holders m k \<or> touches k op = Some r"
  by (cases op) (auto simp: holders_get holders_set holders_delete split: if_splits)

lemma holders_apply_ops:
  "r |\<in>| holders (apply_ops ops m) k \<Longrightarrow> r |\<in>| holders m k \<or> r \<in> set (touchers k ops)"
  unfolding apply_ops_def
proof (induction ops arbitrary: m)
  case Nil
  then show ?case by simp
next
  case (Cons op ops)
  from Cons.IH [of "apply_op op m"] Cons.prems holders_apply_op [of r op m k]
  show ?case by (auto simp: touchers_def map_filter_simps split: option.splits)
qed

lemma holders_kept:
  "r |\<in>| holders m k \<Longrightarrow> op \<noteq> Delete r \<Longrightarrow> r |\<in>| holders (apply_op op m) k"
  by (cases op) (auto simp: holders_get holders_set holders_delete)

lemma holders_kept_ops:
  "r |\<in>| holders m k \<Longrightarrow> Delete r \<notin> set ops \<Longrightarrow> r |\<in>| holders (apply_ops ops m) k"
  unfolding apply_ops_def
  by (induction ops arbitrary: m) (auto simp: holders_kept)

lemma apply_ops_append: "apply_ops (xs @ ys) m = apply_ops ys (apply_ops xs m)"
  by (simp add: apply_ops_def)

lemma apply_ops_Cons: "apply_ops (x # xs) m = apply_ops xs (apply_op x m)"
  by (simp add: apply_ops_def)

lemma held_present: "r |\<in>| holders m k \<Longrightarrow> map_of m k \<noteq> None"
  by (auto simp: holders_def split: option.splits)

text \<open>
  C2 (as amended). From an empty cache, after any operations: once \<open>delete(r1)\<close> has run, a key
  that only \<open>r1\<close> touched has no entry, and a \<open>get\<close> of it returns the absent sentinel; a key
  on which another referrer \<open>r2\<close> did a \<open>set\<close>, or a \<open>get\<close> that found an entry, with no
  \<open>delete(r2)\<close> after it, still has its entry, held by \<open>r2\<close>.
\<close>

theorem delete_releases_own_keys_only:
  "(set (touchers k ops) \<subseteq> {r1} \<longrightarrow>
      snd (SharedCache_get r k (SharedCache_delete r1 (apply_ops ops []))) = None) \<and>
   (ops = before @ reg # after \<and>
    (reg = Set r2 k v \<or> reg = Get r2 k \<and> map_of (apply_ops before []) k \<noteq> None) \<and>
    Delete r2 \<notin> set after \<and> r2 \<noteq> r1 \<longrightarrow>
      map_of (SharedCache_delete r1 (apply_ops ops [])) k \<noteq> None \<and>
      r2 |\<in>| holders (SharedCache_delete r1 (apply_ops ops [])) k)"
proof (intro conjI impI)
  assume only: "set (touchers k ops) \<subseteq> {r1}"
  have "holders (apply_ops ops []) k |\<subseteq>| {|r1|}"
  proof
    fix x assume "x |\<in>| holders (apply_ops ops []) k"
    from holders_apply_ops [OF this] only show "x |\<in>| {|r1|}"
      by (auto simp: holders_def)
  qed
  then have "holders (SharedCache_delete r1 (apply_ops ops [])) k = {||}"
    by (auto simp: holders_delete)
  then have "map_of (SharedCache_delete r1 (apply_ops ops [])) k = None"
    by (cases "map_of (apply_ops ops []) k")
       (auto simp: holders_def SharedCache_delete_lookup split: if_splits)
  then show "snd (SharedCache_get r k (SharedCache_delete r1 (apply_ops ops []))) = None"
    by (simp add: SharedCache_get_def)
next
  assume a: "ops = before @ reg # after \<and>
    (reg = Set r2 k v \<or> reg = Get r2 k \<and> map_of (apply_ops before []) k \<noteq> None) \<and>
    Delete r2 \<notin> set after \<and> r2 \<noteq> r1"
  then have "r2 |\<in>| holders (apply_op reg (apply_ops before [])) k"
    by (auto simp: holders_get holders_set)
  with a have "r2 |\<in>| holders (apply_ops ops []) k"
    by (simp add: apply_ops_append apply_ops_Cons holders_kept_ops)
  with a show held: "r2 |\<in>| holders (SharedCache_delete r1 (apply_ops ops [])) k"
    by (simp add: holders_delete)
  then show "map_of (SharedCache_delete r1 (apply_ops ops [])) k \<noteq> None"
    by (rule held_present)
qed

definition ops_example :: "nat cache_op list" where
  "ops_example = [Set ''r1'' ''k1'' 1, Set ''r2'' ''k2'' 2, Get ''r1'' ''k2'']"

theorem delete_releases_own_keys_only_witness:
  "set (touchers ''k1'' ops_example) \<subseteq> {''r1''} \<and>
   snd (SharedCache_get ''r3'' ''k1'' (SharedCache_delete ''r1'' (apply_ops ops_example []))) = None \<and>
   ops_example = [Set ''r1'' ''k1'' 1] @ Set ''r2'' ''k2'' 2 # [Get ''r1'' ''k2''] \<and>
   Delete ''r2'' \<notin> set [Get ''r1'' ''k2'' :: nat cache_op] \<and> ''r2'' \<noteq> ''r1'' \<and>
   map_of (SharedCache_delete ''r1'' (apply_ops ops_example [])) ''k2'' \<noteq> None \<and>
   ''r2'' |\<in>| holders (SharedCache_delete ''r1'' (apply_ops ops_example [])) ''k2''"
  using delete_releases_own_keys_only [of "''k1''" ops_example "''r1''" "''r3''"]
    delete_releases_own_keys_only [of "''k2''" ops_example "''r1''" _
      "[Set ''r1'' ''k1'' 1]" "Set ''r2'' ''k2'' 2" "[Get ''r1'' ''k2'']" "''r2''" 2]
  by (simp add: ops_example_def touchers_def map_filter_simps)

text \<open>C2 as stated fails: \<open>r2\<close> touched the key by a \<open>get\<close> that found nothing, \<open>delete(r2)\<close>
  was not called, and the entry is gone after \<open>delete(r1)\<close>.\<close>

theorem get_miss_holds_nothing:
  "touchers ''k'' [Get ''r2'' ''k'', Set ''r1'' ''k'' (1::nat)] = [''r2'', ''r1''] \<and>
   map_of (SharedCache_delete ''r1'' (apply_ops [Get ''r2'' ''k'', Set ''r1'' ''k'' (1::nat)] [])) ''k'' = None"
  by (simp add: touchers_def map_filter_simps apply_ops_def SharedCache_get_def SharedCache_set_def
      SharedCache_delete_lookup refs_add_def)



section \<open>Nickname and prefix\<close>

lemmas string_defs = ascii_def startsWith_def slice_def separator_def is_space_def trim_def
  trimStart_def

lemmas parse_defs = parse_message_def strip_nickname_step_def stripNickname_def
  strip_prefixes_def strip_prefix_step_def resolvePrefixes_def

lemma stripNickname_loop_first:
  assumes "\<forall>n \<in> set pre. \<not> (startsWith body n \<and> separator (slice body (length n)) \<noteq> None)"
    and "startsWith body nick" and "separator (slice body (length nick)) = Some sep"
  shows "stripNickname_loop (pre @ nick # post) body =
           Some (slice (slice body (length nick)) (length sep))"
  using assms by (induction pre) (auto simp: Let_def)

lemma strip_mentions_no_mention:
  "els = [] \<or> etype (hd els) \<noteq> ''at'' \<Longrightarrow> strip_mentions env self els acc = acc"
  by (cases els; cases acc) auto

lemma observeChannel_keeps:
  assumes "observeChannel env fs (s, w) = ((s', w'), r)"
  shows "session_id s' = session_id s" "parsed s' = parsed s" "elements s' = elements s"
    "user s' = user s" "guild s' = guild s" "selfId s' = selfId s" "userId s' = userId s"
    "content s' = content s"
    "sessions w' = sessions w" "userCache w' = userCache w"
  using assms
  by (auto simp: observeChannel_def split: prod.splits option.splits sum.splits)

lemma observeUser_keeps:
  assumes "observeUser env fs (s, w) = ((s', w'), r)"
  shows "session_id s' = session_id s" "parsed s' = parsed s" "elements s' = elements s"
    "channel s' = channel s" "guild s' = guild s" "selfId s' = selfId s" "userId s' = userId s"
    "content s' = content s"
    "sessions w' = sessions w" "channelCache w' = channelCache w"
  using assms
  by (auto simp: observeUser_def split: prod.splits option.splits sum.splits)

lemma attach_channel_keeps:
  assumes "attach_channel env a (s, w) = ((s', w', ev), r)"
  shows "session_id s' = session_id s" "parsed s' = parsed s" "elements s' = elements s"
    "user s' = user s" "guild s' = guild s" "selfId s' = selfId s" "userId s' = userId s"
    "content s' = content s"
    "sessions w' = sessions w" "userCache w' = userCache w" "set ev \<subseteq> range EvEmit"
  using assms
  by (auto simp: attach_channel_def Let_def observeChannel_keeps
      split: prod.splits sum.splits if_splits)

lemma attach_user_keeps:
  assumes "attach_user env (s, w) = ((s', w', ev), r)"
  shows "session_id s' = session_id s" "parsed s' = parsed s" "elements s' = elements s"
    "channel s' = channel s" "guild s' = guild s" "selfId s' = selfId s" "userId s' = userId s"
    "content s' = content s"
    "sessions w' = sessions w" "channelCache w' = channelCache w" "set ev \<subseteq> range EvEmit"
  using assms
  by (auto simp: attach_user_def Let_def observeUser_keeps
      split: prod.splits sum.splits if_splits)


lemma attach_keeps:
  assumes "attach env a (s, w) = ((s', w', ev), p)"
  shows "session_id s' = session_id s \<and> sessions w' = sessions w \<and>
    selfId s' = selfId s \<and> userId s' = userId s \<and> content s' = content s \<and>
    parsed s' = parsed s \<and> elements s' = elements s \<and>
    set ev \<subseteq> range EvEmit \<and>
    (p = Return None \<or> p = CallNext None Return \<or> (\<exists>e. p = Throw e))"
proof -
  obtain a2 r2 where
    "(if subtype s = ''group'' then attach_channel env a (s, w)
      else ((s, w, []), Inr False)) = (a2, r2)"
    by (rule prod.exhaust)
  moreover obtain s2 w2 ev2 where "a2 = (s2, w2, ev2)"
    by (rule prod_cases3)
  ultimately have
    ch: "(if subtype s = ''group'' then attach_channel env a (s, w)
          else ((s, w, []), Inr False)) = ((s2, w2, ev2), r2)"
    by simp
  have ch_keeps: "session_id s2 = session_id s \<and> parsed s2 = parsed s \<and>
      selfId s2 = selfId s \<and> userId s2 = userId s \<and> content s2 = content s \<and>
      elements s2 = elements s \<and> sessions w2 = sessions w \<and> set ev2 \<subseteq> range EvEmit"
  proof (cases "subtype s = ''group''")
    case True
    with ch have "attach_channel env a (s, w) = ((s2, w2, ev2), r2)" by simp
    from attach_channel_keeps [OF this] show ?thesis by simp
  next
    case False
    with ch show ?thesis by simp
  qed
  obtain a3 r3 where "attach_user env (s2, w2) = (a3, r3)"
    by (rule prod.exhaust)
  moreover obtain s3 w3 ev3 where "a3 = (s3, w3, ev3)"
    by (rule prod_cases3)
  ultimately have us: "attach_user env (s2, w2) = ((s3, w3, ev3), r3)"
    by simp
  note us_keeps = attach_user_keeps [OF us]
  have result: "((s', w', ev), p) =
     (if database env then
        (case r2 of
           Inl e \<Rightarrow> ((s2, w2, ev2), Throw e)
         | Inr stop \<Rightarrow>
             if stop then ((s2, w2, ev2), Return None)
             else
             (case r3 of
                Inl e \<Rightarrow> ((s3, w3, ev2 @ ev3), Throw e)
              | Inr stop \<Rightarrow>
                  if stop then ((s3, w3, ev2 @ ev3), Return None)
                  else ((s3, w3, ev2 @ ev3 @ [EvEmit ''attach'']), CallNext None Return)))
      else ((s, w, [EvEmit ''attach'']), CallNext None Return))"
    unfolding assms [symmetric] by (cases r2) (simp_all add: attach_def ch us cong: if_cong)
  show ?thesis
    using result ch_keeps us_keeps
    by (cases "database env"; cases r2; cases r3) (auto split: if_splits)
qed

lemma process_keeps:
  assumes "process env (s, w) = ((s', w', ev), p)"
  shows "session_id s' = session_id s" "sessions w' = sessions w"
    "selfId s' = selfId s" "userId s' = userId s" "content s' = content s"
    "set ev \<subseteq> range EvEmit"
    "parsed s' = Some (fst (parse_message env s
       (case elements s of Some els \<Rightarrow> els | None \<Rightarrow> segment_parse env (trim (content s)))))"
    "p = Return None \<or> p = CallNext None Return \<or> (\<exists>e. p = Throw e)"
proof -
  define els where
    "els = (case elements s of Some els \<Rightarrow> els | None \<Rightarrow> segment_parse env (trim (content s)))"
  obtain pm atSelf where pm: "parse_message env s els = (pm, atSelf)"
    by (rule prod.exhaust)
  define s1 where "s1 = s\<lparr>elements := Some els, parsed := Some pm\<rparr>"
  obtain a2 p2 where "attach env atSelf (s1, w) = (a2, p2)"
    by (rule prod.exhaust)
  moreover obtain s2 w2 ev2 where "a2 = (s2, w2, ev2)"
    by (rule prod_cases3)
  ultimately have at: "attach env atSelf (s1, w) = ((s2, w2, ev2), p2)"
    by simp
  have "process env (s, w) = ((s2, w2, EvEmit ''before-attach'' # ev2), p2)"
    using pm at by (simp add: process_def els_def s1_def)
  with assms have eq: "s' = s2" "w' = w2" "ev = EvEmit ''before-attach'' # ev2" "p = p2"
    by simp_all
  from attach_keeps [OF at] eq
  show "session_id s' = session_id s" "sessions w' = sessions w"
    "selfId s' = selfId s" "userId s' = userId s" "content s' = content s"
    "set ev \<subseteq> range EvEmit"
    "p = Return None \<or> p = CallNext None Return \<or> (\<exists>e. p = Throw e)"
    by (auto simp: s1_def)
  from attach_keeps [OF at] eq pm
  show "parsed s' = Some (fst (parse_message env s
       (case elements s of Some els \<Rightarrow> els | None \<Rightarrow> segment_parse env (trim (content s)))))"
    by (simp add: s1_def els_def)
qed


lemma process_parsed:
  "parsed (fst (fst (process env (s, w)))) =
     Some (fst (parse_message env s
       (case elements s of Some els \<Rightarrow> els | None \<Rightarrow> segment_parse env (trim (content s)))))"
proof -
  obtain a p where "process env (s, w) = (a, p)"
    by (rule prod.exhaust)
  moreover obtain s' w' ev where "a = (s', w', ev)"
    by (rule prod_cases3)
  ultimately have eq: "process env (s, w) = ((s', w', ev), p)"
    by simp
  from process_keeps(7) [OF eq] eq show ?thesis by simp
qed

text \<open>
  The nickname step with a non-empty rest. When the nickname is looked for (no mention, or a
  mention of the bot), and the content, less one leading \<open>@\<close>, is a configured nickname, a
  separator and a non-empty rest, for the first configured nickname that is followed by a
  separator, then \<open>appel\<close> is true and the content is the rest (from which the prefixes are
  then stripped). With the nickname \<open>Bot\<close>, no mention and the default prefix list,
  \<open>Bot, hello\<close> gives the content \<open>hello\<close> with \<open>appel\<close> true.
\<close>

lemma nickname_stripped:
  "(strip_mentions env (selfId s) els (trim (content s), False, False, False)
      = (cnt, atSelf, app, hasMention) \<and>
    (\<not> hasMention \<or> atSelf) \<and>
    (if startsWith cnt (ascii ''@'') then slice cnt 1 else cnt) = nick @ sep @ rest \<and>
    nickname env = pre @ nick # post \<and>
    (\<forall>n \<in> set pre. \<not> (startsWith (nick @ sep @ rest) n \<and>
        separator (slice (nick @ sep @ rest) (length n)) \<noteq> None)) \<and>
    separator (sep @ rest) = Some sep \<and> rest \<noteq> []
    \<longrightarrow> appel (fst (parse_message env s els)) \<and>
        parsed_content (fst (parse_message env s els))
          = fst (strip_prefixes (resolvePrefixes env) (rest, None))) \<and>
   (nickname env = [ascii ''Bot''] \<and> content s' = ascii ''Bot, hello'' \<and>
    elements s' = Some els' \<and> (els' = [] \<or> etype (hd els') \<noteq> ''at'') \<and>
    resolvePrefixes env = [[]]
    \<longrightarrow> parsed (fst (fst (process env (s', w)))) =
          Some \<lparr>parsed_content = ascii ''hello'', appel = True, prefix = Some []\<rparr>)"
proof (intro conjI impI)
  assume a: "strip_mentions env (selfId s) els (trim (content s), False, False, False)
      = (cnt, atSelf, app, hasMention) \<and>
    (\<not> hasMention \<or> atSelf) \<and>
    (if startsWith cnt (ascii ''@'') then slice cnt 1 else cnt) = nick @ sep @ rest \<and>
    nickname env = pre @ nick # post \<and>
    (\<forall>n \<in> set pre. \<not> (startsWith (nick @ sep @ rest) n \<and>
        separator (slice (nick @ sep @ rest) (length n)) \<noteq> None)) \<and>
    separator (sep @ rest) = Some sep \<and> rest \<noteq> []"
  let ?body = "nick @ sep @ rest"
  have "stripNickname_loop (pre @ nick # post) ?body =
          Some (slice (slice ?body (length nick)) (length sep))"
    using a by (intro stripNickname_loop_first) (auto simp: startsWith_def slice_def)
  then have "stripNickname env cnt = Some rest"
    using a by (simp add: stripNickname_def Let_def slice_def)
  with a have step: "strip_nickname_step env (cnt, app) = (rest, True)"
    by (simp add: strip_nickname_step_def)
  from a step show "appel (fst (parse_message env s els))"
    by (auto simp: parse_message_def split: prod.splits)
  from a step show "parsed_content (fst (parse_message env s els))
      = fst (strip_prefixes (resolvePrefixes env) (rest, None))"
    by (auto simp: parse_message_def split: prod.splits)
next
  assume b: "nickname env = [ascii ''Bot''] \<and> content s' = ascii ''Bot, hello'' \<and>
    elements s' = Some els' \<and> (els' = [] \<or> etype (hd els') \<noteq> ''at'') \<and> resolvePrefixes env = [[]]"
  then have "strip_mentions env (selfId s') els' (trim (content s'), False, False, False)
      = (ascii ''Bot, hello'', False, False, False)"
    by (simp add: strip_mentions_no_mention string_defs)
  with b have "parse_message env s' els' =
      (\<lparr>parsed_content = ascii ''hello'', appel = True, prefix = Some []\<rparr>, False)"
    by (simp add: parse_message_def strip_nickname_step_def stripNickname_def
        strip_prefixes_def strip_prefix_step_def string_defs)
  with b show "parsed (fst (fst (process env (s', w)))) =
      Some \<lparr>parsed_content = ascii ''hello'', appel = True, prefix = Some []\<rparr>"
    by (simp add: process_parsed)
qed


lemma nickname_stripped_example:
  "strip_mentions (env0\<lparr>nickname := [ascii ''Robot'', ascii ''Bot'']\<rparr>) (selfId s0) []
      (trim (content s0), False, False, False) = (ascii ''Bot, hello'', False, False, False) \<and>
   nickname (env0\<lparr>nickname := [ascii ''Robot'', ascii ''Bot'']\<rparr>)
      = [ascii ''Robot''] @ ascii ''Bot'' # [] \<and>
   separator (ascii '', '' @ ascii ''hello'') = Some (ascii '', '') \<and>
   appel (fst (parse_message (env0\<lparr>nickname := [ascii ''Robot'', ascii ''Bot'']\<rparr>) s0 [])) \<and>
   parsed_content (fst (parse_message (env0\<lparr>nickname := [ascii ''Robot'', ascii ''Bot'']\<rparr>) s0 []))
      = ascii ''hello'' \<and>
   nickname env0 = [ascii ''Bot''] \<and> resolvePrefixes env0 = [[]] \<and>
   parsed (fst (fst (process env0 (s0\<lparr>elements := Some []\<rparr>, w0)))) =
      Some \<lparr>parsed_content = ascii ''hello'', appel = True, prefix = Some []\<rparr>"
  using nickname_stripped [where env = "env0\<lparr>nickname := [ascii ''Robot'', ascii ''Bot'']\<rparr>"
      and s = s0 and els = "[]" and cnt = "ascii ''Bot, hello''" and atSelf = False
      and app = False and hasMention = False and nick = "ascii ''Bot''" and sep = "ascii '', ''"
      and rest = "ascii ''hello''" and pre = "[ascii ''Robot'']" and post = "[]"]
    nickname_stripped [where env = env0 and s' = "s0\<lparr>elements := Some []\<rparr>" and els' = "[]"
      and w = w0]
  by (simp add: env0_def s0_def string_defs resolvePrefixes_def strip_prefixes_def
      strip_prefix_step_def)

text \<open>
  C6. The nickname step takes an empty rest for no match. With the nickname \<open>Bot\<close>, the
  content \<open>Bot,\<close> starts with the nickname followed by the separator \<open>,\<close> and
  \<^verbatim>\<open>_stripNickname\<close> returns the empty rest, yet the content is left as it is and \<open>appel\<close> stays
  false. With the nicknames \<open>Bot x\<close> and \<open>Bot\<close>, the content \<open>Bot x,\<close> is left as it is too.
\<close>

theorem empty_rest_is_taken_for_no_match:
  "startsWith (ascii ''Bot,'') (ascii ''Bot'') \<and>
   separator (slice (ascii ''Bot,'') (length (ascii ''Bot''))) = Some (ascii '','') \<and>
   stripNickname env0 (ascii ''Bot,'') = Some [] \<and>
   parse_message env0 (s0\<lparr>content := ascii ''Bot,''\<rparr>) [] =
     (\<lparr>parsed_content = ascii ''Bot,'', appel = False, prefix = Some []\<rparr>, False) \<and>
   stripNickname (env0\<lparr>nickname := [ascii ''Bot x'', ascii ''Bot'']\<rparr>) (ascii ''Bot x,'')
     = Some [] \<and>
   parse_message (env0\<lparr>nickname := [ascii ''Bot x'', ascii ''Bot'']\<rparr>)
       (s0\<lparr>content := ascii ''Bot x,''\<rparr>) [] =
     (\<lparr>parsed_content = ascii ''Bot x,'', appel = False, prefix = Some []\<rparr>, False)"
  by (simp add: env0_def s0_def string_defs parse_defs)

theorem empty_rest_is_taken_for_no_match_witness:
  "appel (fst (parse_message env0 (s0\<lparr>content := ascii ''Bot,''\<rparr>) [])) = False \<and>
   parsed_content (fst (parse_message env0 (s0\<lparr>content := ascii ''Bot,''\<rparr>) []))
     = ascii ''Bot,''"
  using empty_rest_is_taken_for_no_match by simp

text \<open>
  C7. The prefix loop has no \<^verbatim>\<open>break\<close>: with the prefixes \<open>/\<close> and \<open>.\<close>, the content
  \<open>/.help\<close> loses both, and the recorded prefix is the second one, \<open>.\<close>.
\<close>

theorem prefix_loop_strips_twice:
  "resolvePrefixes (env0\<lparr>resolved_prefix := PArray [ascii ''/'', ascii ''.'']\<rparr>)
     = [ascii ''/'', ascii ''.''] \<and>
   parse_message (env0\<lparr>resolved_prefix := PArray [ascii ''/'', ascii ''.'']\<rparr>)
       (s0\<lparr>content := ascii ''/.help''\<rparr>) [] =
     (\<lparr>parsed_content = ascii ''help'', appel = False, prefix = Some (ascii ''.'')\<rparr>, False)"
  by (simp add: env0_def s0_def string_defs parse_defs)

theorem prefix_loop_strips_twice_witness:
  "prefix (fst (parse_message (env0\<lparr>resolved_prefix := PArray [ascii ''/'', ascii ''.'']\<rparr>)
       (s0\<lparr>content := ascii ''/.help''\<rparr>) [])) = Some (ascii ''.'') \<and>
   parsed_content (fst (parse_message (env0\<lparr>resolved_prefix := PArray [ascii ''/'', ascii ''.'']\<rparr>)
       (s0\<lparr>content := ascii ''/.help''\<rparr>) [])) = ascii ''help''"
  using prefix_loop_strips_twice by simp

text \<open>
  C10. A message whose sender is the bot itself is not handled: the session and the state are
  as before (the session is not registered), nothing happened (no middleware was invoked,
  nothing was sent, no step of the teardown ran), and no error leaves the function.
\<close>

theorem own_message_ignored:
  "selfId s = userId s \<Longrightarrow> handleMessage env hooks s w = (s, w, [], None)"
  by (simp add: handleMessage_def)

theorem own_message_ignored_witness:
  "selfId (s0\<lparr>userId := ''bot''\<rparr>) = userId (s0\<lparr>userId := ''bot''\<rparr>) \<and>
   handleMessage env0 [(\<lambda>s. True, Process)] (s0\<lparr>userId := ''bot''\<rparr>) w0
     = (s0\<lparr>userId := ''bot''\<rparr>, w0, [], None)"
  using own_message_ignored [of "s0\<lparr>userId := ''bot''\<rparr>" env0 "[(\<lambda>s. True, Process)]" w0]
  by (simp add: s0_def)

section \<open>Steps of a dispatch\<close>

lemma invoked_append [simp]: "invoked (xs @ ys) = invoked xs @ invoked ys"
  by (induction xs rule: invoked.induct) auto

lemma sent_append [simp]: "sent (xs @ ys) = sent xs @ sent ys"
  by (induction xs rule: sent.induct) auto

lemma invoked_emits: "set evs \<subseteq> range EvEmit \<Longrightarrow> invoked evs = []"
  by (induction evs rule: invoked.induct) auto

lemma sent_inner: "list_all inner_event evs \<Longrightarrow> sent evs = []"
  by (induction evs rule: sent.induct) auto

lemma inner_emits: "set evs \<subseteq> range EvEmit \<Longrightarrow> list_all inner_event evs"
  by (induction evs) auto

lemma step_cases [consumes 1, case_names return caught failed exhausted invoke]:
  assumes "step env c = Some c'"
  obtains
    (return) r k ks where "control c = Return r" "stack c = k # ks"
      "c' = c\<lparr>control := k r, stack := ks\<rparr>"
  | (caught) e k ks c1 r where "control c = Throw e" "stack c = k # ks"
      "next_catch env e c = (c1, r)" "c' = c1\<lparr>control := k r, stack := ks\<rparr>"
  | (failed) cb k e c1 c2 r where "control c = CallNext cb k" "next_try cb c = (c1, Inl e)"
      "next_catch env e c1 = (c2, r)" "c' = c2\<lparr>control := k r\<rparr>"
  | (exhausted) cb k c1 where "control c = CallNext cb k" "next_try cb c = (c1, Inr None)"
      "c' = c1\<lparr>control := k None\<rparr>"
  | (invoke) cb k c1 en where "control c = CallNext cb k"
      "next_try cb c = (c1, Inr (Some en))"
      "c' = invoke env en (c1\<lparr>stack := k # stack c1, trace := trace c1 @ [EvInvoke (index c)]\<rparr>)"
proof (cases "control c")
  case (Return r)
  with assms return show ?thesis
    by (auto simp: step_def split: list.splits)
next
  case (Throw e)
  with assms caught show ?thesis
    by (auto simp: step_def split: list.splits prod.splits)
next
  case (CallNext cb k)
  obtain c1 out where nt: "next_try cb c = (c1, out)"
    by (rule prod.exhaust)
  show ?thesis
  proof (cases out)
    case (Inl e)
    obtain c2 r where "next_catch env e c1 = (c2, r)"
      by (rule prod.exhaust)
    with assms CallNext nt Inl failed show ?thesis
      by (auto simp: step_def)
  next
    case (Inr found)
    with assms CallNext nt exhausted invoke show ?thesis
      by (cases found) (auto simp: step_def)
  qed
qed

lemma next_try_cases [case_names isolated exceeded advance]:
  obtains
    (isolated) "sessions (world c) (session_id (sess c)) = None"
      "next_try cb c = (c, Inl (Error ''isolated next function detected''))"
  | (exceeded) x where "sessions (world c) (session_id (sess c)) \<noteq> None" "cb = Some x"
      "MAX_DEPTH < Suc (length (queue c))"
      "next_try cb c =
         (c\<lparr>queue := queue c @ [Composed x]\<rparr>, Inl (Error ''middleware stack exceeded 64''))"
  | (advance) q' where "sessions (world c) (session_id (sess c)) \<noteq> None"
      "q' = (case cb of None \<Rightarrow> queue c | Some x \<Rightarrow> queue c @ [Composed x])"
      "cb = None \<or> length q' \<le> MAX_DEPTH"
      "next_try cb c =
         (c\<lparr>queue := q', index := Suc (index c)\<rparr>,
          Inr (if index c < length q' then Some (q' ! index c) else None))"
proof (cases "sessions (world c) (session_id (sess c)) = None")
  case True
  with isolated show ?thesis by (simp add: next_try_def)
next
  case False
  show ?thesis
  proof (cases cb)
    case None
    with False advance [of "queue c"] show ?thesis
      by (simp add: next_try_def)
  next
    case (Some x)
    show ?thesis
    proof (cases "MAX_DEPTH < Suc (length (queue c))")
      case True
      with False Some exceeded show ?thesis by (simp add: next_try_def)
    next
      case over: False
      with False Some advance [of "queue c @ [Composed x]"] show ?thesis
        by (simp add: next_try_def)
    qed
  qed
qed

lemma next_catch_trace:
  "next_catch env e c = (c', r) \<Longrightarrow>
     \<exists>ev. trace c' = trace c @ [ev] \<and> inner_event ev \<and> invoked [ev] = []"
  by (cases e) (auto simp: next_catch_def)

lemma invoke_keeps:
  "session_id (sess (invoke env en c)) = session_id (sess c)"
  "sessions (world (invoke env en c)) = sessions (world c)"
  "selfId (sess (invoke env en c)) = selfId (sess c)"
  "userId (sess (invoke env en c)) = userId (sess c)"
  "content (sess (invoke env en c)) = content (sess c)"
  "\<exists>evs. trace (invoke env en c) = trace c @ evs \<and> set evs \<subseteq> range EvEmit"
proof -
  obtain a p where "process env (sess c, world c) = (a, p)"
    by (rule prod.exhaust)
  moreover obtain s' w' ev where "a = (s', w', ev)"
    by (rule prod_cases3)
  ultimately have eq: "process env (sess c, world c) = ((s', w', ev), p)"
    by simp
  note keeps = process_keeps [OF eq]
  show "session_id (sess (invoke env en c)) = session_id (sess c)"
    "sessions (world (invoke env en c)) = sessions (world c)"
    "selfId (sess (invoke env en c)) = selfId (sess c)"
    "userId (sess (invoke env en c)) = userId (sess c)"
    "content (sess (invoke env en c)) = content (sess c)"
    "\<exists>evs. trace (invoke env en c) = trace c @ evs \<and> set evs \<subseteq> range EvEmit"
    using eq keeps(1-6)
    by (auto simp: invoke_def split: queued.splits middleware.splits)
qed

text \<open>What one step keeps and what it adds.\<close>

lemma step_keeps:
  assumes "step env c = Some c'"
  shows "session_id (sess c') = session_id (sess c)"
    "sessions (world c') = sessions (world c)"
proof -
  have "session_id (sess c') = session_id (sess c) \<and> sessions (world c') = sessions (world c)"
    using assms
  proof (cases rule: step_cases)
    case (failed cb k e c1 c2 r)
    then show ?thesis
      by (cases rule: next_try_cases [of c cb]) (auto simp: next_catch_keeps)
  next
    case (exhausted cb k c1)
    then show ?thesis
      by (cases rule: next_try_cases [of c cb]) auto
  next
    case (invoke cb k c1 en)
    then show ?thesis
      by (cases rule: next_try_cases [of c cb]) (auto simp: invoke_keeps)
  qed (auto simp: next_catch_keeps)
  then show "session_id (sess c') = session_id (sess c)"
    "sessions (world c') = sessions (world c)" by simp_all
qed


lemma step_trace:
  assumes "step env c = Some c'"
  shows "\<exists>evs. trace c' = trace c @ evs \<and> list_all inner_event evs \<and>
           index c \<le> index c' \<and>
           (invoked evs = [] \<or> invoked evs = [index c] \<and> index c' = Suc (index c))"
  using assms
proof (cases rule: step_cases)
  case (return r k ks)
  then show ?thesis by simp
next
  case (caught e k ks c1 r)
  with next_catch_trace [OF caught(3)] show ?thesis
    by (auto simp: next_catch_keeps)
next
  case (failed cb k e c1 c2 r)
  with next_catch_trace [OF failed(3)] show ?thesis
    by (cases rule: next_try_cases [of c cb]) (auto simp: next_catch_keeps)
next
  case (exhausted cb k c1)
  then show ?thesis
    by (cases rule: next_try_cases [of c cb]) auto
next
  case (invoke cb k c1 en)
  obtain evs where evs: "trace c' = trace c1 @ [EvInvoke (index c)] @ evs"
      "set evs \<subseteq> range EvEmit"
    using invoke_keeps(6) [of env en "c1\<lparr>stack := k # stack c1,
      trace := trace c1 @ [EvInvoke (index c)]\<rparr>"] invoke(3) by auto
  from invoke(2) have c1: "trace c1 = trace c" "index c1 = Suc (index c)"
    by (cases rule: next_try_cases [of c cb]; auto)+
  show ?thesis
    by (rule exI [of _ "EvInvoke (index c) # evs"])
       (use evs c1 invoke(3) in \<open>auto simp: invoked_emits inner_emits\<close>)
qed

section \<open>What a dispatch reaches\<close>

lemma reaches_prepend:
  assumes "step env c = Some c'" "reaches env c' d"
  shows "reaches env c d"
  using assms(2)
proof (induction rule: reaches.induct)
  case here
  show ?case by (rule reaches.further [OF reaches.here assms(1)])
next
  case (further d d')
  then show ?case by (blast intro: reaches.further)
qed

lemma run_reaches: "reaches env c (run env c)"
proof (induction env c rule: run.induct)
  case (1 env c)
  show ?case
  proof (cases "step env c")
    case None
    then show ?thesis by (simp add: run.simps reaches.here)
  next
    case (Some c')
    with 1 show ?thesis by (simp add: run.simps reaches_prepend)
  qed
qed

lemma run_final: "step env (run env c) = None"
proof (induction env c rule: run.induct)
  case (1 env c)
  then show ?case by (cases "step env c") (simp_all add: run.simps)
qed

lemma run_step: "step env c = Some c' \<Longrightarrow> run env c = run env c'"
  by (simp add: run.simps)

lemma run_stop: "step env c = None \<Longrightarrow> run env c = c"
  by (simp add: run.simps)

lemma reaches_keeps:
  assumes "reaches env c d"
  shows "session_id (sess d) = session_id (sess c)" "sessions (world d) = sessions (world c)"
  using assms by (induction rule: reaches.induct) (simp_all add: step_keeps)


lemma reaches_trace:
  assumes "reaches env c d"
  shows "\<exists>evs. trace d = trace c @ evs \<and> list_all inner_event evs \<and> index c \<le> index d \<and>
           sorted_wrt (<) (invoked evs) \<and> (\<forall>i \<in> set (invoked evs). index c \<le> i \<and> i < index d)"
  using assms
proof (induction rule: reaches.induct)
  case here
  show ?case by simp
next
  case (further d d')
  from further.IH obtain evs where evs: "trace d = trace c @ evs" "list_all inner_event evs"
    "index c \<le> index d" "sorted_wrt (<) (invoked evs)"
    "\<forall>i \<in> set (invoked evs). index c \<le> i \<and> i < index d"
    by blast
  from step_trace [OF further.hyps(2)] obtain new where new: "trace d' = trace d @ new"
    "list_all inner_event new" "index d \<le> index d'"
    "invoked new = [] \<or> invoked new = [index d] \<and> index d' = Suc (index d)"
    by blast
  show ?case
    by (rule exI [of _ "evs @ new"])
       (use evs new in \<open>auto simp: sorted_wrt_append\<close>)
qed

lemma initial_simps [simp]:
  "control (initial hooks s w) = CallNext None Return"
  "stack (initial hooks s w) = []"
  "index (initial hooks s w) = 0"
  "sess (initial hooks s w) = s"
  "trace (initial hooks s w) = []"
  "sessions (world (initial hooks s w)) = (sessions w)(session_id s \<mapsto> s)"
  "userCache (world (initial hooks s w)) = userCache w"
  "channelCache (world (initial hooks s w)) = channelCache w"
  by (simp_all add: initial_def)

lemma dispatch_registered:
  "reaches env (initial hooks s w) c \<Longrightarrow> sessions (world c) (session_id (sess c)) \<noteq> None"
  by (simp add: reaches_keeps)

section \<open>Teardown\<close>

lemma final_inner: "list_all inner_event evs \<Longrightarrow> filter final_event evs = []"
  by (induction evs) (auto elim: inner_event.elims)

lemma deliver_events:
  "deliver env p = (ev, err) \<Longrightarrow> filter final_event ev = [] \<and> invoked ev = []"
  by (auto simp: deliver_def split: prog.splits option.splits if_splits)

lemma flush_events:
  "flush env s = (ev, err) \<Longrightarrow> filter final_event ev = [] \<and> invoked ev = [] \<and> sent ev = []"
  by (auto simp: flush_def update_record_def split: option.splits prod.splits)

lemma teardown_result:
  assumes "teardown env s w = (w', ev, err)"
  shows "sessions w' (session_id s) = None"
    "holders (userCache w') k = holders (userCache w) k |-| {|session_id s|}"
    "holders (channelCache w') k = holders (channelCache w) k |-| {|session_id s|}"
    "filter final_event ev = [EvUnregister (session_id s), EvReleaseUser (session_id s),
       EvReleaseChannel (session_id s)]"
    "invoked ev = []" "sent ev = []" "err = snd (flush env s)"
proof -
  obtain ev' err' where fl: "flush env s = (ev', err')"
    by (rule prod.exhaust)
  with assms flush_events [OF fl]
  show "sessions w' (session_id s) = None"
    "holders (userCache w') k = holders (userCache w) k |-| {|session_id s|}"
    "holders (channelCache w') k = holders (channelCache w) k |-| {|session_id s|}"
    "filter final_event ev = [EvUnregister (session_id s), EvReleaseUser (session_id s),
       EvReleaseChannel (session_id s)]"
    "invoked ev = []" "sent ev = []" "err = snd (flush env s)"
    by (auto simp: teardown_def Let_def holders_delete)
qed

text \<open>What \<^verbatim>\<open>_handleMessage\<close> returns for a message of somebody else, in terms of the final
  configuration of the dispatch.\<close>

lemma handleMessage_dispatched:
  assumes "selfId s \<noteq> userId s"
  obtains c ev_try err_try w' ev_fin err_fin where
    "c = run env (initial hooks s w)"
    "deliver env (control c) = (ev_try, err_try)"
    "teardown env (sess c) (world c) = (w', ev_fin, err_fin)"
    "handleMessage env hooks s w =
       (sess c, w', trace c @ ev_try @ ev_fin,
        case err_fin of Some e \<Rightarrow> Some e | None \<Rightarrow> err_try)"
proof -
  define c where "c = run env (initial hooks s w)"
  obtain ev_try err_try where d: "deliver env (control c) = (ev_try, err_try)"
    by (rule prod.exhaust)
  obtain w' ev_fin err_fin where t: "teardown env (sess c) (world c) = (w', ev_fin, err_fin)"
    by (rule prod_cases3)
  show ?thesis
    by (rule that [OF c_def d t]) (use assms d t in \<open>simp add: handleMessage_def c_def Let_def\<close>)
qed

text \<open>
  C1. For a session that is dispatched (the message is not the bot's own), whatever the
  handlers do and whether or not the transport or an update fails, \<^verbatim>\<open>_handleMessage\<close> ends,
  and then: the session id is not in the registry, no entry of the user cache or of the
  channel cache is held by the session id, and the teardown ran exactly once: the events
  that unregister the session and release the two caches are those three, once each.
\<close>

theorem teardown_runs_once:
  assumes "selfId s \<noteq> userId s"
  shows "\<exists>s' w' tr err. handleMessage env hooks s w = (s', w', tr, err) \<and>
    sessions w' (session_id s) = None \<and>
    (\<forall>k. session_id s |\<notin>| holders (userCache w') k) \<and>
    (\<forall>k. session_id s |\<notin>| holders (channelCache w') k) \<and>
    filter final_event tr =
      [EvUnregister (session_id s), EvReleaseUser (session_id s), EvReleaseChannel (session_id s)]"
proof -
  from assms obtain c ev_try err_try w' ev_fin err_fin where
    c: "c = run env (initial hooks s w)" and
    d: "deliver env (control c) = (ev_try, err_try)" and
    t: "teardown env (sess c) (world c) = (w', ev_fin, err_fin)" and
    h: "handleMessage env hooks s w =
       (sess c, w', trace c @ ev_try @ ev_fin,
        case err_fin of Some e \<Rightarrow> Some e | None \<Rightarrow> err_try)"
    by (rule handleMessage_dispatched)
  have r: "reaches env (initial hooks s w) c"
    unfolding c by (rule run_reaches)
  have sid: "session_id (sess c) = session_id s"
    using reaches_keeps(1) [OF r] by simp
  from reaches_trace [OF r] have inner: "list_all inner_event (trace c)"
    by auto
  note td = teardown_result [OF t, unfolded sid]
  have "filter final_event (trace c @ ev_try @ ev_fin) =
      [EvUnregister (session_id s), EvReleaseUser (session_id s), EvReleaseChannel (session_id s)]"
    using final_inner [OF inner] deliver_events [OF d] td(4) by simp
  with h td(1-3) show ?thesis by simp
qed

section \<open>The next function\<close>

lemmas machine_defs = initial_def step_def next_try_def next_catch_def invoke_def
  MAX_DEPTH_def deliver_def teardown_def flush_def update_record_def

text \<open>
  C4 (as amended). A call of \<^verbatim>\<open>next\<close> when the session id is not in the registry, as it is
  after the teardown, throws the isolation error inside \<^verbatim>\<open>next\<close>; the \<^verbatim>\<open>catch\<close> block of \<^verbatim>\<open>next\<close>
  logs it and \<^verbatim>\<open>next\<close> resolves to \<^verbatim>\<open>undefined\<close>: the caller goes on with no value, the queue
  and the index are as before, and no queued handler is invoked.
\<close>

theorem isolated_next_is_caught:
  "(sessions (world c) (session_id (sess c)) = None \<and> control c = CallNext cb k \<longrightarrow>
      next_try cb c = (c, Inl (Error ''isolated next function detected'')) \<and>
      step env c = Some (c\<lparr>control := k None,
        trace := trace c @ [EvWarn (content (sess c)) (Error ''isolated next function detected'')]\<rparr>)) \<and>
   (selfId s \<noteq> userId s \<and> handleMessage env hooks s w = (s', w', tr, err) \<longrightarrow>
      sessions w' (session_id s') = None)"
proof (intro conjI impI)
  assume a: "sessions (world c) (session_id (sess c)) = None \<and> control c = CallNext cb k"
  then show thrown: "next_try cb c = (c, Inl (Error ''isolated next function detected''))"
    by (simp add: next_try_def)
  with a show "step env c = Some (c\<lparr>control := k None,
        trace := trace c @ [EvWarn (content (sess c)) (Error ''isolated next function detected'')]\<rparr>)"
    by (simp add: step_def next_catch_def)
next
  assume b: "selfId s \<noteq> userId s \<and> handleMessage env hooks s w = (s', w', tr, err)"
  then have "selfId s \<noteq> userId s" by simp
  then obtain c ev_try err_try w2 ev_fin err_fin where
    "c = run env (initial hooks s w)" and
    "deliver env (control c) = (ev_try, err_try)" and
    t: "teardown env (sess c) (world c) = (w2, ev_fin, err_fin)" and
    h: "handleMessage env hooks s w =
       (sess c, w2, trace c @ ev_try @ ev_fin,
        case err_fin of Some e \<Rightarrow> Some e | None \<Rightarrow> err_try)"
    by (rule handleMessage_dispatched)
  from teardown_result(1) [OF t] h b show "sessions w' (session_id s') = None"
    by simp
qed

theorem isolated_next_is_caught_witness:
  "sessions (world late_call) (session_id (sess late_call)) = None \<and>
   control late_call = CallNext None Return \<and>
   next_try None late_call = (late_call, Inl (Error ''isolated next function detected'')) \<and>
   selfId s0 \<noteq> userId s0 \<and>
   sessions (fst (snd (handleMessage env0 hooks_ab s0 w0)))
     (session_id (fst (handleMessage env0 hooks_ab s0 w0))) = None"
  using isolated_next_is_caught [where c = late_call and cb = None and k = Return and s = s0
      and env = env0 and hooks = hooks_ab and w = w0
      and s' = "fst (handleMessage env0 hooks_ab s0 w0)"
      and w' = "fst (snd (handleMessage env0 hooks_ab s0 w0))"
      and tr = "fst (snd (snd (handleMessage env0 hooks_ab s0 w0)))"
      and err = "snd (snd (snd (handleMessage env0 hooks_ab s0 w0)))"]
  by (simp add: late_call_def s0_def w0_def)

text \<open>C4 as stated fails: the error does not leave \<^verbatim>\<open>next\<close>. The caller of the late call goes
  on with the value \<^verbatim>\<open>undefined\<close> (it returns it) and the error is only logged.\<close>

theorem isolated_next_does_not_throw:
  "sessions (world late_call) (session_id (sess late_call)) = None \<and>
   step env0 late_call = Some (late_call\<lparr>control := Return None,
     trace := [EvWarn (ascii ''Bot, hello'') (Error ''isolated next function detected'')]\<rparr>)"
  by (simp add: late_call_def s0_def w0_def step_def next_try_def next_catch_def)




theorem teardown_runs_once_witness:
  "selfId s0 \<noteq> userId s0 \<and>
   snd (snd (snd (handleMessage (env0\<lparr>session_send := \<lambda>t. Some (Error ''network'')\<rparr>)
     hooks_ab s0 w0))) = Some (Error ''network'') \<and>
   (\<exists>s' w' tr err.
      handleMessage (env0\<lparr>session_send := \<lambda>t. Some (Error ''network'')\<rparr>) hooks_ab s0 w0
        = (s', w', tr, err) \<and>
      sessions w' (session_id s0) = None \<and>
      (\<forall>k. session_id s0 |\<notin>| holders (userCache w') k) \<and>
      (\<forall>k. session_id s0 |\<notin>| holders (channelCache w') k) \<and>
      filter final_event tr =
        [EvUnregister (session_id s0), EvReleaseUser (session_id s0),
         EvReleaseChannel (session_id s0)])"
proof -
  have ne: "selfId s0 \<noteq> userId s0"
    by (simp add: s0_def)
  have "snd (snd (snd (handleMessage (env0\<lparr>session_send := \<lambda>t. Some (Error ''network'')\<rparr>)
     hooks_ab s0 w0))) = Some (Error ''network'')"
    by (simp add: handleMessage_def run.simps machine_defs hooks_ab_def s0_def w0_def env0_def
      Let_def ascii_def)
  with ne teardown_runs_once [OF ne, of "env0\<lparr>session_send := \<lambda>t. Some (Error ''network'')\<rparr>"
      hooks_ab w0]
  show ?thesis by simp
qed

section \<open>The gate of the attach pipeline\<close>

lemma warnings_append [simp]: "warnings (xs @ ys) = warnings xs @ warnings ys"
  by (induction xs rule: warnings.induct) auto

lemma warnings_emits: "set evs \<subseteq> range EvEmit \<Longrightarrow> warnings evs = []"
  by (induction evs rule: warnings.induct) auto

lemma sent_emits: "set evs \<subseteq> range EvEmit \<Longrightarrow> sent evs = []"
  by (induction evs rule: sent.induct) auto







section \<open>Ignored sessions\<close>






section \<open>Session errors\<close>

lemma run_unwind:
  assumes "control c = Return r" "stack c = replicate n Return"
  shows "run env c = c\<lparr>stack := []\<rparr>"
  using assms
proof (induction n arbitrary: c)
  case 0
  then have "step env c = None"
    by (simp add: step_def)
  moreover from 0 have "c\<lparr>stack := []\<rparr> = c"
    by (cases c) simp
  ultimately show ?case
    by (simp add: run_stop)
next
  case (Suc n)
  let ?c' = "c\<lparr>control := Return r, stack := replicate n Return\<rparr>"
  from Suc.prems have "step env c = Some ?c'"
    by (simp add: step_def)
  then have "run env c = run env ?c'"
    by (rule run_step)
  moreover have "run env ?c' = ?c'\<lparr>stack := []\<rparr>"
    by (rule Suc.IH) simp_all
  moreover have "?c'\<lparr>stack := []\<rparr> = c\<lparr>stack := []\<rparr>"
    using Suc.prems(1) by (cases c) simp
  ultimately show ?case
    by (simp only:)
qed

lemma drop_Cons_parts:
  assumes "drop n xs = y # ys"
  shows "n < length xs" "xs ! n = y" "drop (Suc n) xs = ys"
proof -
  from assms show "n < length xs"
    by (metis drop_eq_Nil list.distinct(1) not_le)
  from assms show "xs ! n = y"
    by (rule nth_via_drop)
  from assms show "drop (Suc n) xs = ys"
    by (metis drop_Suc list.sel(3) tl_drop)
qed

lemma next_try_plain:
  "sessions (world c) (session_id (sess c)) \<noteq> None \<Longrightarrow>
   next_try None c =
     (c\<lparr>index := Suc (index c)\<rparr>,
      Inr (if index c < length (queue c) then Some (queue c ! index c) else None))"
  by (auto simp: next_try_def)

text \<open>A chain of handlers that return \<^verbatim>\<open>next()\<close>, then a handler that throws a session error:
  the outermost \<^verbatim>\<open>next\<close> call resolves to the text of the error.\<close>

lemma run_pass_then_throw:
  assumes "control c = CallNext None Return"
    and "sessions (world c) (session_id (sess c)) \<noteq> None"
    and "stack c = replicate m Return"
    and "drop (index c) (queue c) = map (\<lambda>h. Bound (Handler h)) pass @ Bound (Handler t) # q"
    and "\<forall>h \<in> set pass. \<forall>x. h x = CallNext None Return"
    and "\<forall>x. t x = Throw (SessionError path param)"
  shows "\<exists>evs. run env c =
      c\<lparr>control := Return (Some (session_text env path param)), stack := [],
        index := Suc (index c + length pass), trace := trace c @ evs\<rparr> \<and>
      sent evs = [] \<and> warnings evs = []"
  using assms(1-5)
proof (induction pass arbitrary: c m)
  case Nil
  then have dr: "drop (index c) (queue c) = Bound (Handler t) # q"
    by simp
  note parts = drop_Cons_parts [OF dr]
  let ?c1 = "c\<lparr>control := Throw (SessionError path param), index := Suc (index c),
      stack := Return # replicate m Return, trace := trace c @ [EvInvoke (index c)]\<rparr>"
  let ?c2 = "c\<lparr>control := Return (Some (session_text env path param)), index := Suc (index c),
      stack := replicate m Return,
      trace := trace c @ [EvInvoke (index c), EvText path param]\<rparr>"
  have "step env c = Some ?c1"
    using Nil.prems(1,3) parts(1,2) assms(6)
    by (simp add: step_def next_try_plain [OF Nil.prems(2)] invoke_def)
  then have "run env c = run env ?c1"
    by (rule run_step)
  moreover have "step env ?c1 = Some ?c2"
    by (simp add: step_def next_catch_def)
  then have "run env ?c1 = run env ?c2"
    by (rule run_step)
  moreover have "run env ?c2 = ?c2\<lparr>stack := []\<rparr>"
    by (rule run_unwind [where n = m]) simp_all
  ultimately have "run env c = ?c2\<lparr>stack := []\<rparr>"
    by (simp only:)
  then show ?case
    by (intro exI [of _ "[EvInvoke (index c), EvText path param]"]) simp
next
  case (Cons h pass)
  then have dr: "drop (index c) (queue c) =
      Bound (Handler h) # (map (\<lambda>h. Bound (Handler h)) pass @ Bound (Handler t) # q)"
    by simp
  note parts = drop_Cons_parts [OF dr]
  let ?c1 = "c\<lparr>index := Suc (index c), stack := Return # stack c,
      trace := trace c @ [EvInvoke (index c)]\<rparr>"
  have h: "h (sess c) = CallNext None Return"
    using Cons.prems(5) by simp
  have "step env c = Some (?c1\<lparr>control := CallNext None Return\<rparr>)"
    using Cons.prems(1) parts(1,2) h
    by (simp add: step_def next_try_plain [OF Cons.prems(2)] invoke_def)
  moreover have "?c1\<lparr>control := CallNext None Return\<rparr> = ?c1"
    using Cons.prems(1) by (cases c) simp
  ultimately have "step env c = Some ?c1"
    by (simp only:)
  then have first: "run env c = run env ?c1"
    by (rule run_step)
  have "\<exists>evs. run env ?c1 =
      ?c1\<lparr>control := Return (Some (session_text env path param)), stack := [],
        index := Suc (index ?c1 + length pass), trace := trace ?c1 @ evs\<rparr> \<and>
      sent evs = [] \<and> warnings evs = []"
    by (rule Cons.IH [where m = "Suc m"])
       (use Cons.prems parts(3) in simp_all)
  then obtain evs where evs: "run env ?c1 =
      ?c1\<lparr>control := Return (Some (session_text env path param)), stack := [],
        index := Suc (index ?c1 + length pass), trace := trace ?c1 @ evs\<rparr>"
    "sent evs = []" "warnings evs = []"
    by blast
  show ?case
    by (rule exI [of _ "EvInvoke (index c) # evs"])
       (simp add: first evs)
qed

lemma teardown_warnings:
  "teardown env s w = (w', ev, err) \<Longrightarrow> warnings ev = []"
  by (auto simp: teardown_def Let_def flush_def update_record_def
      split: prod.splits option.splits)

text \<open>
  C9 (as amended). A session error thrown by a handler is caught by the \<^verbatim>\<open>next\<close> call that
  invoked the handler, which resolves to exactly the localised text of the error for its
  caller. When every handler invoked before the throwing one returns the value of its
  \<^verbatim>\<open>next()\<close> call (\<^verbatim>\<open>_process\<close> first or not), the text reaches \<^verbatim>\<open>_handleMessage\<close> and, when it is
  not empty, it is sent, exactly it; nothing is logged, and no error leaves but one of the
  transport or of the final updates.
\<close>

theorem session_error_becomes_reply:
  "(control c = Throw (SessionError path param) \<and> stack c = k # ks \<longrightarrow>
      step env c = Some (c\<lparr>control := k (Some (session_text env path param)), stack := ks,
        trace := trace c @ [EvText path param]\<rparr>)) \<and>
   (selfId s \<noteq> userId s \<and>
    queue (initial hooks s w)
      = front @ map (\<lambda>h. Bound (Handler h)) pass @ Bound (Handler t) # q \<and>
    (front = [] \<or> front = [Bound Process] \<and>
       snd (process env (s, world (initial hooks s w))) = CallNext None Return) \<and>
    (\<forall>h \<in> set pass. \<forall>x. h x = CallNext None Return) \<and>
    (\<forall>x. t x = Throw (SessionError path param)) \<and>
    handleMessage env hooks s w = (s', w', tr, err)
    \<longrightarrow> sent tr = (if session_text env path param = [] then []
                   else [session_text env path param]) \<and>
        warnings tr = [] \<and>
        err = (case snd (flush env s') of
                 Some e \<Rightarrow> Some e
               | None \<Rightarrow> if session_text env path param = [] then None
                         else session_send env (session_text env path param)))"
proof (intro conjI impI)
  assume "control c = Throw (SessionError path param) \<and> stack c = k # ks"
  then show "step env c = Some (c\<lparr>control := k (Some (session_text env path param)),
      stack := ks, trace := trace c @ [EvText path param]\<rparr>)"
    by (simp add: step_def next_catch_def)
next
  assume a: "selfId s \<noteq> userId s \<and>
    queue (initial hooks s w)
      = front @ map (\<lambda>h. Bound (Handler h)) pass @ Bound (Handler t) # q \<and>
    (front = [] \<or> front = [Bound Process] \<and>
       snd (process env (s, world (initial hooks s w))) = CallNext None Return) \<and>
    (\<forall>h \<in> set pass. \<forall>x. h x = CallNext None Return) \<and>
    (\<forall>x. t x = Throw (SessionError path param)) \<and>
    handleMessage env hooks s w = (s', w', tr, err)"
  let ?c0 = "initial hooks s w"
  let ?text = "session_text env path param"
  have final: "control (run env ?c0) = Return (Some ?text) \<and>
      sent (trace (run env ?c0)) = [] \<and> warnings (trace (run env ?c0)) = []"
  proof (cases "front = []")
    case True
    have "\<exists>evs. run env ?c0 =
        ?c0\<lparr>control := Return (Some ?text), stack := [],
          index := Suc (index ?c0 + length pass), trace := trace ?c0 @ evs\<rparr> \<and>
        sent evs = [] \<and> warnings evs = []"
      by (rule run_pass_then_throw [where m = 0 and t = t and q = q])
         (use a True in simp_all)
    then show ?thesis by auto
  next
    case False
    with a have front: "front = [Bound Process]"
      and go: "snd (process env (s, world ?c0)) = CallNext None Return"
      by auto
    obtain x p where "process env (s, world ?c0) = (x, p)"
      by (rule prod.exhaust)
    moreover obtain s1 w1 ev where "x = (s1, w1, ev)"
      by (rule prod_cases3)
    ultimately have pr: "process env (s, world ?c0) = ((s1, w1, ev), CallNext None Return)"
      using go by simp
    note keeps = process_keeps [OF pr]
    let ?c1 = "?c0\<lparr>control := CallNext None Return, index := 1, stack := [Return],
        sess := s1, world := w1, trace := EvInvoke 0 # ev\<rparr>"
    have "step env ?c0 = Some ?c1"
      using a front pr by (simp add: step_def next_try_def invoke_def)
    then have first: "run env ?c0 = run env ?c1"
      by (rule run_step)
    have "\<exists>evs. run env ?c1 =
        ?c1\<lparr>control := Return (Some ?text), stack := [],
          index := Suc (index ?c1 + length pass), trace := trace ?c1 @ evs\<rparr> \<and>
        sent evs = [] \<and> warnings evs = []"
      by (rule run_pass_then_throw [where m = 1 and t = t and q = q])
         (use a front keeps(1,2) in simp_all)
    with first keeps(6) show ?thesis
      by (auto simp: sent_emits warnings_emits)
  qed
  from a obtain cf ev_try err_try w2 ev_fin err_fin where
    c: "cf = run env ?c0" and
    d: "deliver env (control cf) = (ev_try, err_try)" and
    td: "teardown env (sess cf) (world cf) = (w2, ev_fin, err_fin)" and
    h: "handleMessage env hooks s w =
       (sess cf, w2, trace cf @ ev_try @ ev_fin,
        case err_fin of Some e \<Rightarrow> Some e | None \<Rightarrow> err_try)"
    by (blast intro: handleMessage_dispatched [of s env hooks w])
  from final c have cf: "control cf = Return (Some ?text)" "sent (trace cf) = []"
    "warnings (trace cf) = []"
    by simp_all
  from d cf(1) have dd: "ev_try = (if ?text = [] then [] else [EvSend ?text])"
    "err_try = (if ?text = [] then None else session_send env ?text)"
    by (auto simp: deliver_def split: if_splits)
  note fin = teardown_result(6,7) [OF td] teardown_warnings [OF td]
  from a h have eq: "s' = sess cf" "tr = trace cf @ ev_try @ ev_fin"
    "err = (case err_fin of Some e \<Rightarrow> Some e | None \<Rightarrow> err_try)"
    by simp_all
  from eq cf dd fin show "sent tr = (if ?text = [] then [] else [?text])"
    by simp
  from eq cf dd fin show "warnings tr = []"
    by simp
  from eq dd fin show "err = (case snd (flush env s') of
                 Some e \<Rightarrow> Some e
               | None \<Rightarrow> if ?text = [] then None else session_send env ?text)"
    by (simp split: option.splits)
qed

text \<open>C9 as stated fails: the first handler drops the value of its \<^verbatim>\<open>next()\<close> call, the
  second throws the session error; the text is not empty, and nothing is sent.\<close>

theorem session_error_text_can_be_dropped:
  "session_text env0 [''errors.no-permission''] [] = ascii ''errors.no-permission'' \<and>
   sent (fst (snd (snd (handleMessage env0 hooks_swallow s0 w0)))) = [] \<and>
   invoked (fst (snd (snd (handleMessage env0 hooks_swallow s0 w0)))) = [0, 1] \<and>
   snd (snd (snd (handleMessage env0 hooks_swallow s0 w0))) = None"
  by (simp add: handleMessage_def run.simps machine_defs hooks_swallow_def s0_def w0_def
      env0_def Let_def)

theorem session_error_becomes_reply_witness:
  "selfId s0 \<noteq> userId s0 \<and>
   snd (process env0 (s0, world (initial hooks_denied s0 w0))) = CallNext None Return \<and>
   session_text env0 [''errors.no-permission''] [] = ascii ''errors.no-permission'' \<and>
   sent (fst (snd (snd (handleMessage env0 hooks_denied s0 w0))))
     = [ascii ''errors.no-permission''] \<and>
   warnings (fst (snd (snd (handleMessage env0 hooks_denied s0 w0)))) = []"
proof -
  have ne: "selfId s0 \<noteq> userId s0"
    by (simp add: s0_def)
  have go: "snd (process env0 (s0, world (initial hooks_denied s0 w0))) = CallNext None Return"
    by (simp add: process_def attach_def attach_channel_def attach_user_def observeChannel_def
        observeUser_def SharedCache_get_def SharedCache_set_def initial_def parse_defs string_defs
        env0_def s0_def w0_def Let_def)
  have q: "queue (initial hooks_denied s0 w0) =
      [Bound Process] @ map (\<lambda>h. Bound (Handler h)) [\<lambda>s. CallNext None Return] @
      Bound (Handler (\<lambda>s. Throw (SessionError [''errors.no-permission''] []))) # []"
    by (simp add: initial_def hooks_denied_def)
  have tx: "session_text env0 [''errors.no-permission''] [] = ascii ''errors.no-permission''"
    by (simp add: env0_def)
  have nonempty: "ascii ''errors.no-permission'' \<noteq> []"
    by (simp add: ascii_def)
  have "sent (fst (snd (snd (handleMessage env0 hooks_denied s0 w0))))
      = (if session_text env0 [''errors.no-permission''] [] = [] then []
         else [session_text env0 [''errors.no-permission''] []]) \<and>
    warnings (fst (snd (snd (handleMessage env0 hooks_denied s0 w0)))) = []"
    using session_error_becomes_reply [where env = env0 and s = s0 and hooks = hooks_denied
        and w = w0 and front = "[Bound Process]" and pass = "[\<lambda>s. CallNext None Return]"
        and t = "\<lambda>s. Throw (SessionError [''errors.no-permission''] [])" and q = "[]"
        and path = "[''errors.no-permission'']" and param = "[]"
        and s' = "fst (handleMessage env0 hooks_denied s0 w0)"
        and w' = "fst (snd (handleMessage env0 hooks_denied s0 w0))"
        and tr = "fst (snd (snd (handleMessage env0 hooks_denied s0 w0)))"
        and err = "snd (snd (snd (handleMessage env0 hooks_denied s0 w0)))"]
      ne go q
    by simp
  with ne go tx nonempty show ?thesis
    by simp
qed


section \<open>The depth limit\<close>

text \<open>
  C3 (as amended). At any call of \<^verbatim>\<open>next\<close> during a dispatch: the stack-exceeded error is
  thrown in the \<^verbatim>\<open>try\<close> block exactly when a continuation value is given and the queue, with
  the entry pushed, is longer than 64. The \<^verbatim>\<open>catch\<close> block of \<^verbatim>\<open>next\<close> then logs it and \<^verbatim>\<open>next\<close>
  resolves to \<^verbatim>\<open>undefined\<close>: the entry stays pushed, the cursor does not move, no entry is
  invoked, and the caller goes on. A push that leaves the queue at 64 entries or fewer, and
  a call without a continuation value (which pushes nothing), advance the cursor and log
  nothing.
\<close>

theorem stack_exceeded_is_caught:
  assumes "reaches env (initial hooks s w) c" and "control c = CallNext cb k"
  shows "(snd (next_try cb c) = Inl (Error ''middleware stack exceeded 64'')
       \<longleftrightarrow> (\<exists>x. cb = Some x) \<and> 64 < Suc (length (queue c))) \<and>
    (\<forall>x. cb = Some x \<and> 64 < Suc (length (queue c)) \<longrightarrow>
       step env c = Some (c\<lparr>control := k None, queue := queue c @ [Composed x],
         trace := trace c @
           [EvWarn (content (sess c)) (Error ''middleware stack exceeded 64'')]\<rparr>)) \<and>
    (\<forall>x. cb = Some x \<and> Suc (length (queue c)) \<le> 64 \<longrightarrow>
       (\<exists>c'. step env c = Some c' \<and> queue c' = queue c @ [Composed x] \<and>
          index c' = Suc (index c) \<and> warnings (trace c') = warnings (trace c))) \<and>
    (cb = None \<longrightarrow>
       (\<exists>c'. step env c = Some c' \<and> queue c' = queue c \<and>
          index c' = Suc (index c) \<and> warnings (trace c') = warnings (trace c)))"
proof -
  from assms(1) have reg: "sessions (world c) (session_id (sess c)) \<noteq> None"
    by (rule dispatch_registered)
  have thrown: "snd (next_try cb c) = Inl (Error ''middleware stack exceeded 64'')
       \<longleftrightarrow> (\<exists>x. cb = Some x) \<and> 64 < Suc (length (queue c))"
    using reg by (cases cb) (auto simp: next_try_def MAX_DEPTH_def Let_def)
  have over: "step env c = Some (c\<lparr>control := k None, queue := queue c @ [Composed x],
         trace := trace c @
           [EvWarn (content (sess c)) (Error ''middleware stack exceeded 64'')]\<rparr>)"
    if "cb = Some x" "64 < Suc (length (queue c))" for x
    using reg assms(2) that
    by (auto simp: step_def next_try_def next_catch_def MAX_DEPTH_def Let_def)
  have advance: "\<exists>c'. step env c = Some c' \<and> queue c' = q' \<and>
          index c' = Suc (index c) \<and> warnings (trace c') = warnings (trace c)"
    if nt: "next_try cb c = (c\<lparr>queue := q', index := Suc (index c)\<rparr>, Inr found)"
    for q' found
  proof (cases found)
    case None
    with nt assms(2) show ?thesis
      by (simp add: step_def)
  next
    case (Some en)
    let ?c1 = "c\<lparr>queue := q', index := Suc (index c), stack := k # stack c,
        trace := trace c @ [EvInvoke (index c)]\<rparr>"
    from invoke_keeps(6) [of env en ?c1] obtain evs where
      evs: "trace (invoke env en ?c1) = trace ?c1 @ evs" "set evs \<subseteq> range EvEmit"
      by blast
    from Some nt assms(2) have "step env c = Some (invoke env en ?c1)"
      by (simp add: step_def)
    with evs show ?thesis
      by (simp add: warnings_emits)
  qed
  have under: "\<exists>c'. step env c = Some c' \<and> queue c' = queue c @ [Composed x] \<and>
          index c' = Suc (index c) \<and> warnings (trace c') = warnings (trace c)"
    if "cb = Some x" "Suc (length (queue c)) \<le> 64" for x
    by (rule advance) (use reg that in \<open>auto simp: next_try_def MAX_DEPTH_def Let_def\<close>)
  have plain: "\<exists>c'. step env c = Some c' \<and> queue c' = queue c \<and>
          index c' = Suc (index c) \<and> warnings (trace c') = warnings (trace c)"
    if "cb = None"
    by (rule advance [where found = "if index c < length (queue c)
          then Some (queue c ! index c) else None"])
       (use reg that in \<open>auto simp: next_try_def\<close>)
  from thrown over under plain show ?thesis
    by blast
qed

theorem stack_exceeded_is_caught_witness:
  "reaches env0 (initial hooks_full s0 w0) pushing_call \<and>
   control pushing_call =
     CallNext (Some (CbText (ascii ''a''))) (\<lambda>r. Return (Some (ascii ''end''))) \<and>
   length (queue pushing_call) = 64 \<and>
   step env0 pushing_call =
     Some (pushing_call\<lparr>control := Return (Some (ascii ''end'')),
       queue := queue pushing_call @ [Composed (CbText (ascii ''a''))],
       trace := trace pushing_call @
         [EvWarn (content (sess pushing_call)) (Error ''middleware stack exceeded 64'')]\<rparr>) \<and>
   reaches env0 (initial hooks_ab s0 w0)
     ((initial hooks_ab s0 w0)\<lparr>control := CallNext (Some (CbText (ascii ''a''))) Return,
        index := 1, stack := [Return], trace := [EvInvoke 0]\<rparr>) \<and>
   (\<exists>c'. step env0
        ((initial hooks_ab s0 w0)\<lparr>control := CallNext (Some (CbText (ascii ''a''))) Return,
           index := 1, stack := [Return], trace := [EvInvoke 0]\<rparr>) = Some c' \<and>
      length (queue c') = 3 \<and> queue c' ! 2 = Composed (CbText (ascii ''a'')) \<and>
      index c' = 2 \<and> warnings (trace c') = [])"
proof -
  let ?c2 = "(initial hooks_ab s0 w0)\<lparr>control := CallNext (Some (CbText (ascii ''a''))) Return,
        index := 1, stack := [Return], trace := [EvInvoke 0]\<rparr>"
  have st: "step env0 (initial hooks_full s0 w0) = Some pushing_call"
    by (simp add: pushing_call_def initial_def hooks_full_def step_def next_try_def invoke_def
        MAX_DEPTH_def)
  have reach: "reaches env0 (initial hooks_full s0 w0) pushing_call"
    by (rule reaches.further [OF reaches.here st])
  have ctl: "control pushing_call =
      CallNext (Some (CbText (ascii ''a''))) (\<lambda>r. Return (Some (ascii ''end'')))"
    by (simp add: pushing_call_def)
  have len: "length (queue pushing_call) = 64"
    by (simp add: pushing_call_def initial_def hooks_full_def)
  have st2: "step env0 (initial hooks_ab s0 w0) = Some ?c2"
    by (simp add: initial_def hooks_ab_def step_def next_try_def invoke_def MAX_DEPTH_def)
  have reach2: "reaches env0 (initial hooks_ab s0 w0) ?c2"
    by (rule reaches.further [OF reaches.here st2])
  have ctl2: "control ?c2 = CallNext (Some (CbText (ascii ''a''))) Return"
    by simp
  have len2: "queue ?c2 = queue (initial hooks_ab s0 w0)" "index ?c2 = 1"
    "warnings (trace ?c2) = []" "length (queue (initial hooks_ab s0 w0)) = 2"
    by (simp_all add: initial_def hooks_ab_def)
  from stack_exceeded_is_caught [OF reach ctl] len
  have over: "step env0 pushing_call =
     Some (pushing_call\<lparr>control := Return (Some (ascii ''end'')),
       queue := queue pushing_call @ [Composed (CbText (ascii ''a''))],
       trace := trace pushing_call @
         [EvWarn (content (sess pushing_call)) (Error ''middleware stack exceeded 64'')]\<rparr>)"
    by simp
  from stack_exceeded_is_caught [OF reach2 ctl2] len2
  obtain c' where c': "step env0 ?c2 = Some c'"
    "queue c' = queue (initial hooks_ab s0 w0) @ [Composed (CbText (ascii ''a''))]"
    "index c' = Suc 1" "warnings (trace c') = []"
    by auto
  from c'(2) len2(4) have "length (queue c') = 3" "queue c' ! 2 = Composed (CbText (ascii ''a''))"
    by (simp_all add: nth_append)
  with c' have under: "\<exists>c'. step env0 ?c2 = Some c' \<and>
      length (queue c') = 3 \<and> queue c' ! 2 = Composed (CbText (ascii ''a'')) \<and>
      index c' = 2 \<and> warnings (trace c') = []"
    by simp
  from reach ctl len over reach2 under show ?thesis
    by blast
qed

text \<open>C3 as stated fails: with 64 handlers queued, the push of the first handler makes the
  queue 65 long; the error is logged, but the call of \<^verbatim>\<open>next\<close> resolves, the handler goes on
  and returns \<open>end\<close>, which is sent, and no error leaves the dispatch.\<close>

theorem stack_exceeded_does_not_fail_dispatch:
  "length (queue (initial hooks_full s0 w0)) = 64 \<and>
   invoked (fst (snd (snd (handleMessage env0 hooks_full s0 w0)))) = [0] \<and>
   warnings (fst (snd (snd (handleMessage env0 hooks_full s0 w0))))
     = [Error ''middleware stack exceeded 64''] \<and>
   sent (fst (snd (snd (handleMessage env0 hooks_full s0 w0)))) = [ascii ''end''] \<and>
   snd (snd (snd (handleMessage env0 hooks_full s0 w0))) = None"
  by (simp add: handleMessage_def run.simps machine_defs hooks_full_def s0_def w0_def env0_def
      Let_def ascii_def)

end
